theory Spec2Isabelle
  imports Complex_Main "HOL-Library.Multiset"
begin
section \<open>Python values and errors\<close>

text \<open>
  The exceptions the modelled functions of \<^verbatim>\<open>jira-activity-summary.py\<close> can raise.
  \<open>SystemExit n\<close> is \<^verbatim>\<open>sys.exit(n)\<close>; \<open>RequestException\<close> is any exception of
  \<^verbatim>\<open>requests.get\<close> (connection failure, timeout); \<open>JSONDecodeError\<close> is raised by
  \<^verbatim>\<open>response.json()\<close> on a body that is not JSON.
\<close>

datatype py_error =
    SystemExit int
  | RequestException
  | JSONDecodeError
  | KeyError
  | ValueError
  | TypeError
  | OverflowError
  | ZeroDivisionError

section \<open>The paginated search client: \<^verbatim>\<open>jira_search\<close>\<close>

text \<open>The \<^verbatim>\<open>Config\<close> dataclass.\<close>

record config =
  atlassian_user :: string
  atlassian_token :: string
  atlassian_site :: string
  start_date :: string
  end_date :: string
  pto_days :: int

text \<open>
  The \<^verbatim>\<open>params\<close> dictionary of one request. The key \<^verbatim>\<open>nextPageToken\<close> is present
  exactly when \<open>param_nextPageToken\<close> is \<open>Some\<close>.
\<close>

record params =
  param_jql :: string
  param_maxResults :: int
  param_fields :: string
  param_nextPageToken :: "string option"

text \<open>One call \<^verbatim>\<open>requests.get(url, auth=auth, params=params, timeout=30)\<close>.\<close>

record request =
  url :: string
  auth :: "string \<times> string"
  query :: params
  timeout :: nat

text \<open>
  The parsed body of a response (\<^verbatim>\<open>data\<close>). Each field is read with \<^verbatim>\<open>data.get\<close>:
  \<open>None\<close> is an absent key (for \<open>nextPageToken\<close> also JSON \<^verbatim>\<open>null\<close>, which
  \<^verbatim>\<open>data.get\<close> returns as \<^verbatim>\<open>None\<close> too). The search never looks inside an issue, so
  the type of issues is a parameter.
\<close>

record 'i page =
  issues :: "'i list option"
  nextPageToken :: "string option"
  total :: "int option"

text \<open>
  What one \<^verbatim>\<open>requests.get\<close> gives: an exception, or a response with its
  \<^verbatim>\<open>status_code\<close>, its \<^verbatim>\<open>text\<close> and what \<^verbatim>\<open>response.json()\<close> returns (\<open>None\<close> when
  it raises).
\<close>

datatype 'i http_result =
    Request_failed
  | Response int string "'i page option"

text \<open>
  The service is the sequence of its answers: \<open>svc k\<close> answers the \<open>k\<close>-th request
  of a search (counted from 0).
\<close>

type_synonym 'i service = "nat \<Rightarrow> 'i http_result"

text \<open>The calls to \<^verbatim>\<open>logger\<close>, each with its level and the values its message prints.\<close>

datatype log_level = DEBUG | INFO | WARNING | ERROR

datatype log_message =
    Failed_to_fetch
  | Status_code int
  | Response_text string
  | Fetched_of nat int
  | Fetched nat
  | No_more_issues
  | No_nextPageToken
  | Hit_maximum_iteration_limit nat
  | Fetched_done nat

type_synonym log_record = "log_level \<times> log_message"

text \<open>
  The local variables of the loop of \<^verbatim>\<open>jira_search\<close>, with its two effects: the
  requests sent so far (\<open>sent\<close>) and the log records written so far (\<open>logged\<close>).
\<close>

record 'i search_state =
  all_issues :: "'i list"
  next_page_token :: "string option"
  iteration :: nat
  sent :: "request list"
  logged :: "log_record list"

text \<open>Python's truth value of \<^verbatim>\<open>next_page_token\<close>: \<^verbatim>\<open>None\<close> and \<^verbatim>\<open>""\<close> are false.\<close>

definition truthy :: "string option \<Rightarrow> bool" where
  "truthy t = (case t of None \<Rightarrow> False | Some s \<Rightarrow> s \<noteq> [])"

text \<open>\<^verbatim>\<open>sep.join(xs)\<close>.\<close>

fun join :: "string \<Rightarrow> string list \<Rightarrow> string" where
  "join sep [] = []"
| "join sep [x] = x"
| "join sep (x # y # ys) = x @ sep @ join sep (y # ys)"

definition max_iterations :: nat where
  "max_iterations = 100"

definition default_fields :: "string list" where
  "default_fields = [''summary'', ''status'', ''issuetype'', ''created'', ''resolved'']"

definition logger :: "log_level \<Rightarrow> log_message \<Rightarrow> 'i search_state \<Rightarrow> 'i search_state" where
  "logger lvl msg st = st\<lparr>logged := logged st @ [(lvl, msg)]\<rparr>"

text \<open>
  The request of the current iteration: \<open>base\<close> carries the URL, the credentials and
  the parameters that do not change; the token is added when it is truthy.
\<close>

definition build_request :: "request \<Rightarrow> string option \<Rightarrow> request" where
  "build_request base tok =
     base\<lparr>query := (query base)\<lparr>param_nextPageToken := (if truthy tok then tok else None)\<rparr>\<rparr>"

text \<open>
  The \<^verbatim>\<open>while iteration < max_iterations\<close> loop. \<open>Inr\<close> is the state when the loop is
  left (by \<^verbatim>\<open>break\<close> or by its condition), \<open>Inl\<close> an exception with the state at the
  moment it is raised.
\<close>

function search_loop ::
  "'i service \<Rightarrow> request \<Rightarrow> 'i search_state \<Rightarrow> (py_error \<times> 'i search_state) + 'i search_state"
where
  "search_loop svc base st =
     (if iteration st < max_iterations then
        (let st1 = st\<lparr>sent := sent st @ [build_request base (next_page_token st)]\<rparr> in
         case svc (length (sent st)) of
           Request_failed \<Rightarrow> Inl (RequestException, st1)
         | Response status_code body json \<Rightarrow>
             if status_code \<noteq> 200 then
               Inl (SystemExit 1,
                    logger ERROR (Response_text body)
                      (logger ERROR (Status_code status_code) (logger ERROR Failed_to_fetch st1)))
             else
               (case json of
                  None \<Rightarrow> Inl (JSONDecodeError, st1)
                | Some data \<Rightarrow>
                    (let page_issues = (case issues data of None \<Rightarrow> [] | Some xs \<Rightarrow> xs);
                         st2 = st1\<lparr>all_issues := all_issues st1 @ page_issues,
                                   next_page_token := nextPageToken data\<rparr>;
                         n = length (all_issues st2);
                         total_v = (case total data of None \<Rightarrow> int n | Some t \<Rightarrow> t);
                         st3 = (if total_v > 0 then logger INFO (Fetched_of n total_v) st2
                                else logger INFO (Fetched n) st2)
                     in if length page_issues = 0 then Inr (logger DEBUG No_more_issues st3)
                        else if \<not> truthy (next_page_token st3)
                          then Inr (logger DEBUG No_nextPageToken st3)
                        else search_loop svc base (st3\<lparr>iteration := iteration st3 + 1\<rparr>))))
      else Inr st)"
  by pat_completeness auto
termination
  by (relation "measure (\<lambda>(svc, base, st). max_iterations - iteration st)")
    (auto simp: logger_def)

declare search_loop.simps [simp del]

text \<open>
  \<^verbatim>\<open>jira_search(config, jql, fields, max_results)\<close>: the returned list, or the exception,
  together with the requests sent and the log records written.
\<close>

record effects =
  requests :: "request list"
  records :: "log_record list"

definition initial_state :: "'i search_state" where
  "initial_state =
     \<lparr>all_issues = [], next_page_token = None, iteration = 0, sent = [], logged = []\<rparr>"

definition base_request :: "config \<Rightarrow> string \<Rightarrow> string list option \<Rightarrow> int \<Rightarrow> request" where
  "base_request cfg jql field_names max_results =
     (let fields' = (case field_names of None \<Rightarrow> default_fields | Some fs \<Rightarrow> fs) in
      \<lparr>url = ''https://'' @ atlassian_site cfg @ ''/rest/api/3/search/jql'',
       auth = (atlassian_user cfg, atlassian_token cfg),
       query = \<lparr>param_jql = jql, param_maxResults = max_results,
                param_fields = join '','' fields', param_nextPageToken = None\<rparr>,
       timeout = 30\<rparr>)"

definition effects_of :: "'i search_state \<Rightarrow> effects" where
  "effects_of st = \<lparr>requests = sent st, records = logged st\<rparr>"

definition jira_search ::
  "'i service \<Rightarrow> config \<Rightarrow> string \<Rightarrow> string list option \<Rightarrow> int \<Rightarrow> (py_error + 'i list) \<times> effects"
where
  "jira_search svc cfg jql field_names max_results =
     (case search_loop svc (base_request cfg jql field_names max_results) initial_state of
        Inl (e, st) \<Rightarrow> (Inl e, effects_of st)
      | Inr st \<Rightarrow>
          (let st1 = (if iteration st \<ge> max_iterations
                      then logger WARNING (Hit_maximum_iteration_limit max_iterations) st else st);
               st2 = logger INFO (Fetched_done (length (all_issues st1))) st1
           in (Inr (all_issues st2), effects_of st2)))"

subsection \<open>Notions used to state the properties of the search\<close>

text \<open>\<^verbatim>\<open>data.get("issues", [])\<close>: the issues of a page.\<close>

definition issues_of :: "'i page \<Rightarrow> 'i list" where
  "issues_of data = (case issues data of None \<Rightarrow> [] | Some xs \<Rightarrow> xs)"

text \<open>
  The page a request is answered with: the parsed body of a response with status 200.
  Every other answer makes \<^verbatim>\<open>jira_search\<close> raise.
\<close>

definition page_of :: "'i http_result \<Rightarrow> 'i page option" where
  "page_of r = (case r of
      Request_failed \<Rightarrow> None
    | Response status_code body json \<Rightarrow> if status_code = 200 then json else None)"

text \<open>The two \<^verbatim>\<open>break\<close> conditions of the loop, as a predicate on the page.\<close>

definition last_page :: "'i page \<Rightarrow> bool" where
  "last_page data = (issues_of data = [] \<or> \<not> truthy (nextPageToken data))"

text \<open>
  The state after one pass through the loop body up to the progress message: the request
  is sent, the issues of the page are appended, the token is stored.
\<close>

definition receive :: "request \<Rightarrow> 'i page \<Rightarrow> 'i search_state \<Rightarrow> 'i search_state" where
  "receive base data st =
     (let st2 = st\<lparr>sent := sent st @ [build_request base (next_page_token st)],
                    all_issues := all_issues st @ issues_of data,
                    next_page_token := nextPageToken data\<rparr>;
          n = length (all_issues st2);
          total_v = (case total data of None \<Rightarrow> int n | Some t \<Rightarrow> t)
      in if total_v > 0 then logger INFO (Fetched_of n total_v) st2 else logger INFO (Fetched n) st2)"

text \<open>A log with no record above \<open>INFO\<close>.\<close>

definition quiet :: "'i search_state \<Rightarrow> bool" where
  "quiet st = (list_all (\<lambda>r. fst r = DEBUG \<or> fst r = INFO) (logged st))"

text \<open>The state the loop ends in, whether it returns or raises.\<close>

definition final_state :: "(py_error \<times> 'i search_state) + 'i search_state \<Rightarrow> 'i search_state" where
  "final_state r = (case r of Inl (e, st) \<Rightarrow> st | Inr st \<Rightarrow> st)"

subsection \<open>Example services\<close>

definition example_config :: config where
  "example_config =
     \<lparr>atlassian_user = ''me@example.com'', atlassian_token = ''secret'',
      atlassian_site = ''example.atlassian.net'', start_date = ''2025-03-03'',
      end_date = ''2025-03-10'', pto_days = 0\<rparr>"

text \<open>Three pages, the last without a token.\<close>

definition three_pages :: "nat \<Rightarrow> nat page" where
  "three_pages k =
     (if k = 0 then \<lparr>issues = Some [1, 2], nextPageToken = Some ''a'', total = Some 5\<rparr>
      else if k = 1 then \<lparr>issues = Some [3], nextPageToken = Some ''b'', total = Some 5\<rparr>
      else \<lparr>issues = Some [4, 5], nextPageToken = None, total = Some 5\<rparr>)"

text \<open>The service that answers request \<open>k\<close> with status 200 and the page \<open>pg k\<close>.\<close>

definition serve :: "(nat \<Rightarrow> 'i page) \<Rightarrow> 'i service" where
  "serve pg k = Response 200 [] (Some (pg k))"

text \<open>A service that returns one issue and a token on every page, forever.\<close>

definition endless_pages :: "nat \<Rightarrow> nat page" where
  "endless_pages k = \<lparr>issues = Some [k], nextPageToken = Some ''more'', total = None\<rparr>"

text \<open>Pages without a token whose \<^verbatim>\<open>total\<close> says that 1000 issues match.\<close>

definition one_page_of_many :: "nat \<Rightarrow> nat page" where
  "one_page_of_many k = \<lparr>issues = Some [k, k], nextPageToken = None, total = Some 1000\<rparr>"

text \<open>Every page has a token; the second page has no issues.\<close>

definition empty_second_page :: "nat \<Rightarrow> nat page" where
  "empty_second_page k =
     \<lparr>issues = (if k = 1 then Some [] else Some [k]), nextPageToken = Some ''more'',
      total = Some 1000\<rparr>"

text \<open>The second page carries the empty string as its token.\<close>

definition empty_token_page :: "nat \<Rightarrow> nat page" where
  "empty_token_page k =
     \<lparr>issues = Some [k], nextPageToken = (if k = 1 then Some [] else Some ''more''),
      total = Some 1000\<rparr>"

section \<open>Numbers and strings of Python\<close>

text \<open>
  A Python \<^verbatim>\<open>float\<close>: a finite value (the rational number it stands for), an infinity
  or a NaN. The two zeros \<^verbatim>\<open>0.0\<close> and \<^verbatim>\<open>-0.0\<close> are both \<open>Finite 0\<close>; they are
  equal in Python and no function modelled here tells them apart.
\<close>

datatype pyfloat = Finite rat | PosInf | NegInf | NaN

text \<open>
  A value of a parsed JSON document, as \<^verbatim>\<open>response.json()\<close> builds it: \<^verbatim>\<open>None\<close>,
  \<^verbatim>\<open>bool\<close>, \<^verbatim>\<open>int\<close> (unbounded), \<^verbatim>\<open>float\<close>, \<^verbatim>\<open>str\<close>, \<^verbatim>\<open>list\<close> and \<^verbatim>\<open>dict\<close>.
  Strings are ASCII strings.
\<close>

datatype json =
    JNull
  | JBool bool
  | JInt int
  | JFloat pyfloat
  | JStr string
  | JArr "json list"
  | JObj "(string \<times> json) list"

subsection \<open>Floats\<close>

text \<open>
  A \<^verbatim>\<open>float\<close> is an IEEE 754 binary64 number. Every operation that produces a float
  rounds the exact result to the nearest binary64 number, ties to the number with an
  even significand. \<open>bit_length n\<close> is \<^verbatim>\<open>n.bit_length()\<close> for \<open>n \<ge> 0\<close>.
\<close>

function bit_length :: "int \<Rightarrow> int" where
  "bit_length n = (if n \<le> 0 then 0 else 1 + bit_length (n div 2))"
  by pat_completeness auto
termination
  by (relation "measure nat") auto

declare bit_length.simps [simp del]

text \<open>\<open>pow2 e\<close> is \<open>2\<^sup>e\<close> for an integer \<open>e\<close>.\<close>

definition pow2 :: "int \<Rightarrow> rat" where
  "pow2 e = (if e \<ge> 0 then 2 ^ nat e else 1 / 2 ^ nat (- e))"

text \<open>
  For \<open>x > 0\<close>, \<open>floor_log2 x\<close> is the exponent \<open>e\<close> with \<open>2\<^sup>e \<le> x < 2\<^sup>e\<^sup>+\<^sup>1\<close>,
  computed from the bit lengths of the numerator and the denominator.
\<close>

definition floor_log2 :: "rat \<Rightarrow> int" where
  "floor_log2 x =
     (let (p, q) = quotient_of x;
          e0 = bit_length p - bit_length q
      in if pow2 e0 \<le> x then e0 else e0 - 1)"

text \<open>Rounding to the nearest integer, ties to the even one.\<close>

definition round_half_even :: "rat \<Rightarrow> int" where
  "round_half_even x =
     (let f = \<lfloor>x\<rfloor>; d = x - of_int f
      in if d < 1 / 2 then f else if d > 1 / 2 then f + 1
         else if even f then f else f + 1)"

text \<open>
  Rounding to binary64: a normal number has 53 significant bits, so with
  \<open>2\<^sup>e \<le> \<bar>x\<bar> < 2\<^sup>e\<^sup>+\<^sup>1\<close> the spacing of the representable numbers is \<open>2\<^sup>e\<^sup>-\<^sup>5\<^sup>2\<close>; below
  \<open>2\<^sup>-\<^sup>1\<^sup>0\<^sup>2\<^sup>2\<close> (subnormal numbers) the spacing stays \<open>2\<^sup>-\<^sup>1\<^sup>0\<^sup>7\<^sup>4\<close>. A result that rounds
  to \<open>2\<^sup>1\<^sup>0\<^sup>2\<^sup>4\<close> or more in magnitude is an overflow, here an infinity.
\<close>

definition round64 :: "rat \<Rightarrow> pyfloat" where
  "round64 x =
     (if x = 0 then Finite 0
      else
        (let a = \<bar>x\<bar>;
             e = max (floor_log2 a) (- 1022);
             q = pow2 (e - 52);
             r = of_int (round_half_even (a / q)) * q
         in if r \<ge> pow2 1024 then (if x > 0 then PosInf else NegInf)
            else Finite (if x > 0 then r else - r)))"

text \<open>
  \<^verbatim>\<open>float(n)\<close> for an \<^verbatim>\<open>int\<close>: the nearest float, and \<^verbatim>\<open>OverflowError\<close> ("int too
  large to convert to float") when it would overflow.
\<close>

definition float_of_int :: "int \<Rightarrow> py_error + pyfloat" where
  "float_of_int n =
     (case round64 (of_int n) of
        PosInf \<Rightarrow> Inl OverflowError
      | NegInf \<Rightarrow> Inl OverflowError
      | NaN \<Rightarrow> Inr NaN
      | Finite r \<Rightarrow> Inr (Finite r))"

text \<open>
  \<^verbatim>\<open>a / b\<close> for two \<^verbatim>\<open>int\<close>s (true division): the correctly rounded quotient,
  \<^verbatim>\<open>ZeroDivisionError\<close> for \<open>b = 0\<close> and \<^verbatim>\<open>OverflowError\<close> ("integer division result
  too large for a float") when the quotient would overflow.
\<close>

definition int_truediv :: "int \<Rightarrow> int \<Rightarrow> py_error + pyfloat" where
  "int_truediv a b =
     (if b = 0 then Inl ZeroDivisionError
      else case round64 (of_int a / of_int b) of
        PosInf \<Rightarrow> Inl OverflowError
      | NegInf \<Rightarrow> Inl OverflowError
      | NaN \<Rightarrow> Inr NaN
      | Finite r \<Rightarrow> Inr (Finite r))"

text \<open>
  \<^verbatim>\<open>x + y\<close> for two floats: never an exception; an overflow gives an infinity.
\<close>

fun float_add :: "pyfloat \<Rightarrow> pyfloat \<Rightarrow> pyfloat" where
  "float_add (Finite a) (Finite b) = round64 (a + b)"
| "float_add NaN y = NaN"
| "float_add x NaN = NaN"
| "float_add PosInf NegInf = NaN"
| "float_add NegInf PosInf = NaN"
| "float_add PosInf y = PosInf"
| "float_add x PosInf = PosInf"
| "float_add NegInf y = NegInf"
| "float_add x NegInf = NegInf"

subsection \<open>Reading numbers from strings\<close>

text \<open>The ASCII digits, and the value of a digit.\<close>

definition digits :: string where
  "digits = ''0123456789''"

definition is_digit :: "char \<Rightarrow> bool" where
  "is_digit c = (c \<in> set digits)"

definition digit_value :: "char \<Rightarrow> int" where
  "digit_value c = int (length (takeWhile (\<lambda>d. d \<noteq> c) digits))"

text \<open>\<^verbatim>\<open>int(s)\<close> for a string of digits.\<close>

definition int_of_digits :: "string \<Rightarrow> int" where
  "int_of_digits s = foldl (\<lambda>n c. 10 * n + digit_value c) 0 s"

text \<open>
  \<^verbatim>\<open>float(s)\<close> for a string first strips leading and trailing whitespace (for an
  ASCII string: space, tab, line feed, vertical tab, form feed, carriage return).
\<close>

definition is_space :: "char \<Rightarrow> bool" where
  "is_space c = (c \<in> set [CHR '' '', CHR 0x09, CHR 0x0A, CHR 0x0B, CHR 0x0C, CHR 0x0D])"

definition strip :: "string \<Rightarrow> string" where
  "strip s = rev (dropWhile is_space (rev (dropWhile is_space s)))"

text \<open>An optional sign: \<open>True\<close> for a minus.\<close>

definition split_sign :: "string \<Rightarrow> bool \<times> string" where
  "split_sign s =
     (case s of
        [] \<Rightarrow> (False, [])
      | c # r \<Rightarrow> if c = CHR ''-'' then (True, r) else if c = CHR ''+'' then (False, r)
                else (False, s))"

text \<open>\<open>pow10 k\<close> is \<open>10\<^sup>k\<close> for an integer \<open>k\<close>.\<close>

definition pow10 :: "int \<Rightarrow> rat" where
  "pow10 k = (if k \<ge> 0 then 10 ^ nat k else 1 / 10 ^ nat (- k))"

text \<open>
  Underscores may group digits: an underscore is allowed only between two digits. The
  underscores are removed before the number is read; \<open>None\<close> is a misplaced
  underscore. The first argument is the previous character.
\<close>

fun remove_underscores :: "char \<Rightarrow> string \<Rightarrow> string option" where
  "remove_underscores prev [] = (if prev = CHR ''_'' then None else Some [])"
| "remove_underscores prev (c # cs) =
     (if c = CHR ''_'' then
        (if is_digit prev then remove_underscores c cs else None)
      else if prev = CHR ''_'' \<and> \<not> is_digit c then None
      else map_option ((#) c) (remove_underscores c cs))"

text \<open>
  An exponent \<^verbatim>\<open>e\<close> or \<^verbatim>\<open>E\<close>, an optional sign and at least one digit; when there
  is no digit, nothing is consumed.
\<close>

definition parse_exponent :: "string \<Rightarrow> int \<times> string" where
  "parse_exponent s =
     (case s of
        [] \<Rightarrow> (0, s)
      | c # r \<Rightarrow>
          if c = CHR ''e'' \<or> c = CHR ''E'' then
            (let (neg, r1) = split_sign r; ds = takeWhile is_digit r1
             in if ds = [] then (0, s)
                else ((if neg then - int_of_digits ds else int_of_digits ds),
                      dropWhile is_digit r1))
          else (0, s))"

text \<open>
  The longest prefix that is a decimal number: an optional sign, digits with an
  optional point (at least one digit before or after it) and an optional exponent.
  The result is the exact value and the rest of the string.
\<close>

definition parse_decimal :: "string \<Rightarrow> (rat \<times> string) option" where
  "parse_decimal s =
     (let (neg, s1) = split_sign s;
          ip = takeWhile is_digit s1;
          s2 = dropWhile is_digit s1;
          (fp, s3) = (case s2 of
                        [] \<Rightarrow> ([], s2)
                      | c # r \<Rightarrow> if c = CHR ''.''
                                then (takeWhile is_digit r, dropWhile is_digit r)
                                else ([], s2))
      in if ip = [] \<and> fp = [] then None
         else
           (let (ex, s4) = parse_exponent s3;
                v = of_int (int_of_digits (ip @ fp)) * pow10 (ex - int (length fp))
            in Some (if neg then - v else v, s4)))"

text \<open>Lower case of an ASCII letter.\<close>

definition lower :: "char \<Rightarrow> char" where
  "lower c =
     (case map_of (zip ''ABCDEFGHIJKLMNOPQRSTUVWXYZ'' ''abcdefghijklmnopqrstuvwxyz'') c of
        None \<Rightarrow> c
      | Some l \<Rightarrow> l)"

text \<open>
  \<^verbatim>\<open>inf\<close>, \<^verbatim>\<open>infinity\<close> and \<^verbatim>\<open>nan\<close> with an optional sign, in any case of the
  letters.
\<close>

definition parse_inf_or_nan :: "string \<Rightarrow> (pyfloat \<times> string) option" where
  "parse_inf_or_nan s =
     (let (neg, r) = split_sign s in
      if map lower (take 3 r) = ''inf'' then
        (let r1 = drop 3 r;
             r2 = (if map lower (take 5 r1) = ''inity'' then drop 5 r1 else r1)
         in Some (if neg then NegInf else PosInf, r2))
      else if map lower (take 3 r) = ''nan'' then Some (NaN, drop 3 r)
      else None)"

text \<open>
  \<^verbatim>\<open>float(s)\<close> for a string: \<^verbatim>\<open>ValueError\<close> unless the whole stripped string is a
  number. A decimal number is rounded to the nearest float; one that is too large gives
  an infinity, not an exception. Strings are ASCII strings: the white space and the
  digits outside ASCII that Python also accepts are not part of the model.
\<close>

definition float_of_str :: "string \<Rightarrow> py_error + pyfloat" where
  "float_of_str s =
     (case remove_underscores (CHR 0x00) (strip s) of
        None \<Rightarrow> Inl ValueError
      | Some u \<Rightarrow>
          (case parse_decimal u of
             Some (v, rest) \<Rightarrow> if rest = [] then Inr (round64 v) else Inl ValueError
           | None \<Rightarrow>
               (case parse_inf_or_nan u of
                  Some (f, rest) \<Rightarrow> if rest = [] then Inr f else Inl ValueError
                | None \<Rightarrow> Inl ValueError)))"

text \<open>
  \<^verbatim>\<open>float(v)\<close> for a value of a JSON document: \<^verbatim>\<open>TypeError\<close> for \<^verbatim>\<open>None\<close>, a list
  and a dictionary; \<^verbatim>\<open>True\<close> is 1.0 and \<^verbatim>\<open>False\<close> is 0.0.
\<close>

fun py_float :: "json \<Rightarrow> py_error + pyfloat" where
  "py_float JNull = Inl TypeError"
| "py_float (JBool b) = Inr (Finite (if b then 1 else 0))"
| "py_float (JInt n) = float_of_int n"
| "py_float (JFloat f) = Inr f"
| "py_float (JStr s) = float_of_str s"
| "py_float (JArr xs) = Inl TypeError"
| "py_float (JObj kvs) = Inl TypeError"

section \<open>Issues\<close>

text \<open>
  An issue, as far as the aggregators read it: \<open>issuetype_name\<close> is
  \<^verbatim>\<open>issue["fields"]["issuetype"]["name"]\<close>, a string, or \<open>None\<close> when the path
  cannot be followed: a subscript then raises, \<^verbatim>\<open>KeyError\<close> at a missing key and
  \<^verbatim>\<open>TypeError\<close> at a \<^verbatim>\<open>null\<close>. The model does not tell the two apart and has the one
  failure value \<open>Inl KeyError\<close> for both. \<open>issue_fields\<close> holds the other entries of
  the dictionary \<^verbatim>\<open>issue["fields"]\<close>, as a map.
\<close>

record issue =
  issuetype_name :: "string option"
  issue_fields :: "string \<rightharpoonup> json"

section \<open>The aggregators: \<^verbatim>\<open>count_by_type\<close>\<close>

text \<open>
  The list comprehension \<^verbatim>\<open>[issue["fields"]["issuetype"]["name"] for issue in issues]\<close>:
  it raises at the first issue without a type name.
\<close>

fun type_names :: "issue list \<Rightarrow> py_error + string list" where
  "type_names [] = Inr []"
| "type_names (i # rest) =
     (case issuetype_name i of
        None \<Rightarrow> Inl KeyError
      | Some n \<Rightarrow> (case type_names rest of Inl e \<Rightarrow> Inl e | Inr ns \<Rightarrow> Inr (n # ns)))"

text \<open>
  A \<^verbatim>\<open>collections.Counter\<close> is a dictionary, which keeps its keys in the order of
  their first insertion: an association list with distinct keys. Counting an element
  is \<^verbatim>\<open>self[elem] = self.get(elem, 0) + 1\<close>; an existing key keeps its place, a new
  key goes to the end.
\<close>

fun counter_incr :: "'k \<Rightarrow> ('k \<times> nat) list \<Rightarrow> ('k \<times> nat) list" where
  "counter_incr k [] = [(k, 1)]"
| "counter_incr k ((k', n) # c) =
     (if k' = k then (k', n + 1) # c else (k', n) # counter_incr k c)"

text \<open>\<^verbatim>\<open>Counter(iterable)\<close> counts the elements from left to right.\<close>

definition Counter :: "'k list \<Rightarrow> ('k \<times> nat) list" where
  "Counter xs = foldl (\<lambda>c x. counter_incr x c) [] xs"

text \<open>
  \<^verbatim>\<open>Counter.most_common()\<close> is \<^verbatim>\<open>sorted(self.items(), key=itemgetter(1), reverse=True)\<close>.
  Python's sort is stable, also with \<^verbatim>\<open>reverse=True\<close>: entries with equal counts keep
  their order. \<open>sort_key\<close> is a stable insertion sort; descending order is ascending
  order of the negated count.
\<close>

definition most_common :: "('k \<times> nat) list \<Rightarrow> ('k \<times> nat) list" where
  "most_common c = sort_key (\<lambda>(k, n). - int n) c"

text \<open>\<^verbatim>\<open>count_by_type(issues)\<close>.\<close>

definition count_by_type :: "issue list \<Rightarrow> py_error + (string \<times> nat) list" where
  "count_by_type iss =
     (case type_names iss of Inl e \<Rightarrow> Inl e | Inr types \<Rightarrow> Inr (Counter types))"

text \<open>\<^verbatim>\<open>counter[k]\<close>: the count of a key, 0 for a key that is absent.\<close>

definition counter_get :: "('k \<times> nat) list \<Rightarrow> 'k \<Rightarrow> nat" where
  "counter_get c k = (case map_of c k of None \<Rightarrow> 0 | Some n \<Rightarrow> n)"

subsection \<open>Notions used to state the properties of \<^verbatim>\<open>count_by_type\<close>\<close>

text \<open>The number of issues of a type.\<close>

definition number_of_type :: "issue list \<Rightarrow> string \<Rightarrow> nat" where
  "number_of_type iss t = length (filter (\<lambda>i. issuetype_name i = Some t) iss)"

text \<open>The position of the first issue of a type (the length of the list when there is none).\<close>

definition first_seen :: "issue list \<Rightarrow> string \<Rightarrow> nat" where
  "first_seen iss t = length (takeWhile (\<lambda>i. issuetype_name i \<noteq> Some t) iss)"

text \<open>
  The order of display: an entry comes before another when its count is greater, or the
  counts are equal and its type is seen first.
\<close>

definition display_order :: "issue list \<Rightarrow> string \<times> nat \<Rightarrow> string \<times> nat \<Rightarrow> bool" where
  "display_order iss a b =
     (snd a > snd b \<or> (snd a = snd b \<and> first_seen iss (fst a) < first_seen iss (fst b)))"

text \<open>An issue of a given type, with no other field.\<close>

definition typed :: "string \<Rightarrow> issue" where
  "typed n = \<lparr>issuetype_name = Some n, issue_fields = Map.empty\<rparr>"

text \<open>Five issues of three types: Story and Bug tie, Story is seen first.\<close>

definition mixed_issues :: "issue list" where
  "mixed_issues = [typed ''Task'', typed ''Story'', typed ''Bug'', typed ''Bug'', typed ''Story'']"

section \<open>The aggregators: \<^verbatim>\<open>sum_story_points\<close>\<close>

text \<open>
  The loop of \<^verbatim>\<open>sum_story_points\<close> over the issues, with the pair of \<^verbatim>\<open>total\<close> and
  \<^verbatim>\<open>count\<close>. \<^verbatim>\<open>issue["fields"].get(field_name)\<close> is \<^verbatim>\<open>None\<close> for an absent key and for
  a JSON \<^verbatim>\<open>null\<close>. The handler catches \<^verbatim>\<open>ValueError\<close> and \<^verbatim>\<open>TypeError\<close> only; any
  other exception of \<^verbatim>\<open>float(sp)\<close> leaves the function. \<^verbatim>\<open>total += float(sp)\<close> comes
  before \<^verbatim>\<open>count += 1\<close>, so a value that raises changes neither.
\<close>

fun sum_story_points_loop ::
  "issue list \<Rightarrow> string \<Rightarrow> pyfloat \<times> int \<Rightarrow> py_error + pyfloat \<times> int"
where
  "sum_story_points_loop [] field_name (total', count') = Inr (total', count')"
| "sum_story_points_loop (issue # rest) field_name (total', count') =
     (case issue_fields issue field_name of
        None \<Rightarrow> sum_story_points_loop rest field_name (total', count')
      | Some JNull \<Rightarrow> sum_story_points_loop rest field_name (total', count')
      | Some sp \<Rightarrow>
          (case py_float sp of
             Inr f \<Rightarrow> sum_story_points_loop rest field_name (float_add total' f, count' + 1)
           | Inl e \<Rightarrow>
               if e = ValueError \<or> e = TypeError
               then sum_story_points_loop rest field_name (total', count')
               else Inl e))"

text \<open>\<^verbatim>\<open>sum_story_points(issues, field_name)\<close>; the default field is \<^verbatim>\<open>customfield_10014\<close>.\<close>

definition sum_story_points :: "issue list \<Rightarrow> string \<Rightarrow> py_error + pyfloat \<times> int" where
  "sum_story_points iss field_name = sum_story_points_loop iss field_name (Finite 0, 0)"

definition story_points_field :: string where
  "story_points_field = ''customfield_10014''"

subsection \<open>Notions and examples for \<^verbatim>\<open>sum_story_points\<close>\<close>

text \<open>Five issues whose story-point values are \<^verbatim>\<open>3\<close>, \<^verbatim>\<open>"5"\<close>, \<^verbatim>\<open>null\<close>, \<^verbatim>\<open>"bad"\<close> and \<^verbatim>\<open>2.5\<close>.\<close>

definition example_issues :: "issue list" where
  "example_issues =
     map (\<lambda>v. \<lparr>issuetype_name = Some ''Story'', issue_fields = [story_points_field \<mapsto> v]\<rparr>)
       [JInt 3, JStr ''5'', JNull, JStr ''bad'', JFloat (Finite (5 / 2))]"

text \<open>An issue whose story-point value is the integer \<open>10\<^sup>4\<^sup>0\<^sup>0\<close>, a JSON number of 401 digits.\<close>

definition huge_issue :: issue where
  "huge_issue =
     \<lparr>issuetype_name = Some ''Story'', issue_fields = [story_points_field \<mapsto> JInt (10 ^ 400)]\<rparr>"

text \<open>
  The float an issue contributes: that of its field, when the field is present, not
  \<^verbatim>\<open>null\<close> and \<^verbatim>\<open>float\<close> converts it.
\<close>

definition story_value :: "string \<Rightarrow> issue \<Rightarrow> pyfloat option" where
  "story_value f i =
     (case issue_fields i f of
        None \<Rightarrow> None
      | Some v \<Rightarrow>
          if v = JNull then None
          else (case py_float v of Inl e \<Rightarrow> None | Inr x \<Rightarrow> Some x))"

text \<open>The field of the issue is present and \<^verbatim>\<open>float\<close> raises \<^verbatim>\<open>OverflowError\<close> on it.\<close>

definition overflows :: "string \<Rightarrow> issue \<Rightarrow> bool" where
  "overflows f i =
     (case issue_fields i f of
        None \<Rightarrow> False
      | Some v \<Rightarrow> v \<noteq> JNull \<and> py_float v = Inl OverflowError)"

section \<open>The working-week calculator: \<^verbatim>\<open>calculate_working_weeks\<close>\<close>

text \<open>
  Dates are those of Python's \<^verbatim>\<open>datetime\<close> module: the proleptic Gregorian calendar,
  years 1 to 9999. The functions below follow \<^verbatim>\<open>_is_leap\<close>, \<^verbatim>\<open>_days_in_month\<close>,
  \<^verbatim>\<open>_days_before_year\<close>, \<^verbatim>\<open>_days_before_month\<close> and \<^verbatim>\<open>_ymd2ord\<close> of that module.
\<close>

definition is_leap :: "int \<Rightarrow> bool" where
  "is_leap year = (year mod 4 = 0 \<and> (year mod 100 \<noteq> 0 \<or> year mod 400 = 0))"

definition days_in_month :: "int \<Rightarrow> int \<Rightarrow> int" where
  "days_in_month year month =
     (if month = 2 then (if is_leap year then 29 else 28)
      else if month \<in> {4, 6, 9, 11} then 30 else 31)"

definition days_before_year :: "int \<Rightarrow> int" where
  "days_before_year year =
     (let y = year - 1 in y * 365 + y div 4 - y div 100 + y div 400)"

definition days_before_month :: "int \<Rightarrow> int \<Rightarrow> int" where
  "days_before_month year month = sum_list (map (days_in_month year) [1..month - 1])"

definition ymd2ord :: "int \<Rightarrow> int \<Rightarrow> int \<Rightarrow> int" where
  "ymd2ord year month day = days_before_year year + days_before_month year month + day"

text \<open>
  \<^verbatim>\<open>strptime\<close> returns a \<^verbatim>\<open>datetime\<close> at midnight. Such a value is modelled by its
  ordinal (\<^verbatim>\<open>toordinal()\<close>: day 1 is 0001-01-01): the difference of two of them in days,
  their comparison and the addition of \<^verbatim>\<open>timedelta(days=1)\<close> are those of the
  ordinals.
\<close>

type_synonym datetime = int

definition valid_date :: "int \<Rightarrow> int \<Rightarrow> int \<Rightarrow> bool" where
  "valid_date year month day =
     (1 \<le> year \<and> year \<le> 9999 \<and> 1 \<le> month \<and> month \<le> 12 \<and>
      1 \<le> day \<and> day \<le> days_in_month year month)"

text \<open>The constructor \<^verbatim>\<open>datetime(year, month, day)\<close>: \<^verbatim>\<open>ValueError\<close> for a date that does not exist.\<close>

definition datetime :: "int \<Rightarrow> int \<Rightarrow> int \<Rightarrow> py_error + datetime" where
  "datetime year month day =
     (if valid_date year month day then Inr (ymd2ord year month day) else Inl ValueError)"

text \<open>\<^verbatim>\<open>weekday()\<close>: Monday is 0 and Sunday is 6.\<close>

definition weekday :: "datetime \<Rightarrow> int" where
  "weekday d = (d + 6) mod 7"

text \<open>
  \<^verbatim>\<open>datetime.strptime(s, "%Y-%m-%d")\<close> matches the string against the regular expression
  \<^verbatim>\<open>(?P<Y>\d\d\d\d)-(?P<m>1[0-2]|0[1-9]|[1-9])-(?P<d>3[0-1]|[1-2]\d|0[1-9]|[1-9]| [1-9])\<close>,
  which must match the whole string, and then builds the date. The alternatives of a
  group are tried in order. Strings are ASCII strings.
\<close>

definition nonzero_digits :: string where
  "nonzero_digits = ''123456789''"

definition parse_month :: "string \<Rightarrow> (int \<times> string) option" where
  "parse_month s =
     (case s of
        [] \<Rightarrow> None
      | [c] \<Rightarrow> if c \<in> set nonzero_digits then Some (digit_value c, []) else None
      | c1 # c2 # r \<Rightarrow>
          if c1 = CHR ''1'' \<and> c2 \<in> set ''012'' then Some (10 + digit_value c2, r)
          else if c1 = CHR ''0'' \<and> c2 \<in> set nonzero_digits then Some (digit_value c2, r)
          else if c1 \<in> set nonzero_digits then Some (digit_value c1, c2 # r)
          else None)"

definition parse_day :: "string \<Rightarrow> (int \<times> string) option" where
  "parse_day s =
     (case s of
        [] \<Rightarrow> None
      | [c] \<Rightarrow> if c \<in> set nonzero_digits then Some (digit_value c, []) else None
      | c1 # c2 # r \<Rightarrow>
          if c1 = CHR ''3'' \<and> c2 \<in> set ''01'' then Some (30 + digit_value c2, r)
          else if c1 \<in> set ''12'' \<and> is_digit c2
            then Some (10 * digit_value c1 + digit_value c2, r)
          else if c1 = CHR ''0'' \<and> c2 \<in> set nonzero_digits then Some (digit_value c2, r)
          else if c1 \<in> set nonzero_digits then Some (digit_value c1, c2 # r)
          else if c1 = CHR '' '' \<and> c2 \<in> set nonzero_digits then Some (digit_value c2, r)
          else None)"

definition strptime :: "string \<Rightarrow> py_error + datetime" where
  "strptime s =
     (case s of
        y1 # y2 # y3 # y4 # sep1 # r1 \<Rightarrow>
          if list_all is_digit [y1, y2, y3, y4] \<and> sep1 = CHR ''-'' then
            (case parse_month r1 of
               None \<Rightarrow> Inl ValueError
             | Some (month, r2) \<Rightarrow>
                 (case r2 of
                    [] \<Rightarrow> Inl ValueError
                  | sep2 # r3 \<Rightarrow>
                      if sep2 = CHR ''-'' then
                        (case parse_day r3 of
                           None \<Rightarrow> Inl ValueError
                         | Some (day, r4) \<Rightarrow>
                             if r4 = [] then datetime (int_of_digits [y1, y2, y3, y4]) month day
                             else Inl ValueError)
                      else Inl ValueError))
          else Inl ValueError
      | _ \<Rightarrow> Inl ValueError)"

text \<open>
  The scan \<^verbatim>\<open>while current < end\<close>: it counts the days whose weekday is below 5 and
  moves on by one day.
\<close>

function count_weekdays :: "datetime \<Rightarrow> datetime \<Rightarrow> int \<Rightarrow> int" where
  "count_weekdays current end_dt weekdays =
     (if current < end_dt then
        count_weekdays (current + 1) end_dt
          (if weekday current < 5 then weekdays + 1 else weekdays)
      else weekdays)"
  by pat_completeness auto
termination
  by (relation "measure (\<lambda>(current, end_dt, weekdays). nat (end_dt - current))") auto

declare count_weekdays.simps [simp del]

text \<open>
  \<^verbatim>\<open>calculate_working_weeks(start_date, end_date, pto_days)\<close> returns
  \<^verbatim>\<open>(total_days, total_weeks, working_days, working_weeks)\<close>.
\<close>

definition calculate_working_weeks ::
  "string \<Rightarrow> string \<Rightarrow> int \<Rightarrow> py_error + int \<times> pyfloat \<times> int \<times> pyfloat"
where
  "calculate_working_weeks start_s end_s pto =
     (case strptime start_s of
        Inl e \<Rightarrow> Inl e
      | Inr start \<Rightarrow>
          (case strptime end_s of
             Inl e \<Rightarrow> Inl e
           | Inr end_dt \<Rightarrow>
               (let total_days = end_dt - start in
                case int_truediv total_days 7 of
                  Inl e \<Rightarrow> Inl e
                | Inr total_weeks \<Rightarrow>
                    (let weekdays = count_weekdays start end_dt 0;
                         working_days = weekdays - pto
                     in case int_truediv working_days 5 of
                          Inl e \<Rightarrow> Inl e
                        | Inr working_weeks \<Rightarrow>
                            Inr (total_days, total_weeks, working_days, working_weeks)))))"


subsection \<open>Valid calendar dates, as written\<close>







section \<open>Properties of the paginated search\<close>

lemma receive_simps:
  "all_issues (receive base data st) = all_issues st @ issues_of data"
  "sent (receive base data st) = sent st @ [build_request base (next_page_token st)]"
  "iteration (receive base data st) = iteration st"
  "next_page_token (receive base data st) = nextPageToken data"
  by (simp_all add: receive_def logger_def Let_def)

lemma log_simps:
  "all_issues (logger l m st) = all_issues st"
  "sent (logger l m st) = sent st"
  "iteration (logger l m st) = iteration st"
  "next_page_token (logger l m st) = next_page_token st"
  "logged (logger l m st) = logged st @ [(l, m)]"
  by (simp_all add: logger_def)

lemma search_loop_exit:
  "\<not> iteration st < max_iterations \<Longrightarrow> search_loop svc base st = Inr st"
  by (subst search_loop.simps) simp

lemma search_loop_page:
  assumes "iteration st < max_iterations"
    and "page_of (svc (length (sent st))) = Some data"
  shows "search_loop svc base st =
    (if issues_of data = [] then Inr (logger DEBUG No_more_issues (receive base data st))
     else if \<not> truthy (nextPageToken data)
       then Inr (logger DEBUG No_nextPageToken (receive base data st))
     else search_loop svc base ((receive base data st)\<lparr>iteration := iteration st + 1\<rparr>))"
proof -
  obtain body where r: "svc (length (sent st)) = Response 200 body (Some data)"
    using assms(2) by (auto simp: page_of_def split: http_result.splits if_splits)
  have pos: "0 < int m + int (length a)" if "a \<noteq> []" for m and a :: "'a list"
    using that by (cases a) simp_all
  show ?thesis
    by (subst search_loop.simps, cases "total data"; cases "issues data")
       (auto simp add: assms(1) r receive_def issues_of_def logger_def Let_def pos)
qed

lemma quiet_receive: "quiet st \<Longrightarrow> quiet (receive base data st)"
  by (simp add: quiet_def receive_def logger_def Let_def)

lemma search_loop_run:
  assumes pages: "\<And>j. j < n \<Longrightarrow> page_of (svc j) = Some (pg j)"
    and cont: "\<And>j. j < n \<Longrightarrow> \<not> last_page (pg j)"
    and n: "n \<le> max_iterations"
    and inv: "iteration st = length (sent st)" "length (sent st) \<le> n" "quiet st"
  shows "\<exists>st'. search_loop svc base st = search_loop svc base st' \<and>
           iteration st' = n \<and> length (sent st') = n \<and> quiet st' \<and>
           all_issues st' =
             all_issues st @ concat (map (\<lambda>j. issues_of (pg j)) [length (sent st)..<n])"
  using inv
proof (induction "n - length (sent st)" arbitrary: st)
  case 0
  then show ?case by (intro exI [of _ st]) simp
next
  case (Suc d)
  let ?i = "length (sent st)"
  let ?st1 = "(receive base (pg ?i) st)\<lparr>iteration := iteration st + 1\<rparr>"
  from Suc.hyps(2) have i: "?i < n" by simp
  with n Suc.prems have it: "iteration st < max_iterations" by simp
  from cont [OF i] have nl: "issues_of (pg ?i) \<noteq> []" "truthy (nextPageToken (pg ?i))"
    by (simp_all add: last_page_def)
  have step: "search_loop svc base st = search_loop svc base ?st1"
    using search_loop_page [of st svc "pg ?i" base] it pages [OF i] nl by simp
  have "d = n - length (sent ?st1)"
    using Suc.hyps(2) by (simp add: receive_simps)
  moreover have "iteration ?st1 = length (sent ?st1)"
    using Suc.prems by (simp add: receive_simps)
  moreover have "length (sent ?st1) \<le> n"
    using i by (simp add: receive_simps)
  moreover have "quiet ?st1"
    using quiet_receive [OF Suc.prems(3), of base "pg ?i"] by (simp add: quiet_def)
  ultimately obtain st' where st':
    "search_loop svc base ?st1 = search_loop svc base st'"
    "iteration st' = n" "length (sent st') = n" "quiet st'"
    "all_issues st' =
       all_issues ?st1 @ concat (map (\<lambda>j. issues_of (pg j)) [length (sent ?st1)..<n])"
    using Suc.hyps(1) [of ?st1] by blast
  have "[?i..<n] = ?i # [Suc ?i..<n]"
    using i by (simp add: upt_conv_Cons)
  with st' step show ?case
    by (intro exI [of _ st']) (simp add: receive_simps)
qed

lemma search_loop_no_page:
  assumes "iteration st < max_iterations"
    and "page_of (svc (length (sent st))) = None"
  shows "\<exists>e st'. search_loop svc base st = Inl (e, st') \<and>
           sent st' = sent st @ [build_request base (next_page_token st)]"
  using assms
  by (subst search_loop.simps)
     (auto simp: page_of_def logger_def Let_def split: http_result.splits option.splits)

lemma search_loop_bound:
  assumes "iteration st = length (sent st)" "length (sent st) \<le> max_iterations"
  shows "length (sent (final_state (search_loop svc base st))) \<le> max_iterations"
  using assms
proof (induction "max_iterations - iteration st" arbitrary: st)
  case 0
  then show ?case by (simp add: search_loop_exit final_state_def)
next
  case (Suc d)
  then have it: "iteration st < max_iterations" by simp
  show ?case
  proof (cases "page_of (svc (length (sent st)))")
    case None
    from search_loop_no_page [of st svc base] None it Suc.prems show ?thesis
      by (auto simp: final_state_def)
  next
    case (Some data)
    let ?st1 = "(receive base data st)\<lparr>iteration := iteration st + 1\<rparr>"
    have "length (sent (final_state (search_loop svc base ?st1))) \<le> max_iterations"
      using Suc.hyps(2) Suc.prems it
      by (intro Suc.hyps(1)) (simp_all add: receive_simps)
    with search_loop_page [of st svc data base] Some it Suc.prems show ?thesis
      by (auto simp: final_state_def receive_simps log_simps)
  qed
qed

lemma initial_state_simps:
  "iteration initial_state = 0" "sent initial_state = []" "all_issues initial_state = []"
  "logged initial_state = []"
  by (simp_all add: initial_state_def)

lemma jira_search_bound:
  "length (requests (snd (jira_search svc cfg jql field_names max_results))) \<le> max_iterations"
proof -
  let ?r = "search_loop svc (base_request cfg jql field_names max_results) initial_state"
  have "length (sent (final_state ?r)) \<le> max_iterations"
    by (rule search_loop_bound) (simp_all add: initial_state_simps)
  then show ?thesis
    by (cases ?r)
       (auto simp: jira_search_def final_state_def effects_of_def log_simps Let_def)
qed

lemma jira_search_stops_at:
  assumes pages: "\<And>j. j \<le> k \<Longrightarrow> page_of (svc j) = Some (pg j)"
    and k: "k < max_iterations"
    and cont: "\<And>j. j < k \<Longrightarrow> \<not> last_page (pg j)"
    and last: "last_page (pg k)"
  shows "fst (jira_search svc cfg jql field_names max_results) =
           Inr (concat (map (\<lambda>j. issues_of (pg j)) [0..<Suc k]))"
    and "length (requests (snd (jira_search svc cfg jql field_names max_results))) = Suc k"
    and "list_all (\<lambda>r. fst r = DEBUG \<or> fst r = INFO)
           (records (snd (jira_search svc cfg jql field_names max_results)))"
proof -
  let ?base = "base_request cfg jql field_names max_results"
  obtain st where st: "search_loop svc ?base initial_state = search_loop svc ?base st"
    "iteration st = k" "length (sent st) = k" "quiet st"
    "all_issues st = concat (map (\<lambda>j. issues_of (pg j)) [0..<k])"
    using search_loop_run [of k svc pg initial_state ?base] pages cont k
    by (auto simp: initial_state_simps quiet_def)
  let ?st' = "receive ?base (pg k) st"
  from st k have it: "iteration st < max_iterations" by simp
  have pk: "page_of (svc (length (sent st))) = Some (pg k)"
    using pages [of k] st by simp
  have "\<exists>m. search_loop svc ?base st = Inr (logger DEBUG m ?st')"
    using search_loop_page [of st svc "pg k" ?base] it pk last
    by (cases "issues_of (pg k) = []") (auto simp add: last_page_def)
  then obtain m where m: "search_loop svc ?base st = Inr (logger DEBUG m ?st')" ..
  have q: "quiet ?st'" by (rule quiet_receive) (rule st)
  let ?r = "jira_search svc cfg jql field_names max_results"
  have r: "?r = (Inr (all_issues ?st'),
                 effects_of (logger INFO (Fetched_done (length (all_issues ?st')))
                   (logger DEBUG m ?st')))"
    using st(1,2) k m
    by (simp add: jira_search_def Let_def log_simps receive_simps)
  show "fst ?r = Inr (concat (map (\<lambda>j. issues_of (pg j)) [0..<Suc k]))"
    by (simp add: r receive_simps st)
  show "length (requests (snd ?r)) = Suc k"
    by (simp add: r effects_of_def log_simps receive_simps st)
  show "list_all (\<lambda>r. fst r = DEBUG \<or> fst r = INFO) (records (snd ?r))"
    using q by (simp add: r effects_of_def log_simps quiet_def)
qed

lemma jira_search_cap:
  assumes pages: "\<And>j. j < max_iterations \<Longrightarrow> page_of (svc j) = Some (pg j)"
    and cont: "\<And>j. j < max_iterations \<Longrightarrow> \<not> last_page (pg j)"
  shows "fst (jira_search svc cfg jql field_names max_results) =
           Inr (concat (map (\<lambda>j. issues_of (pg j)) [0..<max_iterations]))"
    and "length (requests (snd (jira_search svc cfg jql field_names max_results))) = max_iterations"
    and "\<exists>rs. list_all (\<lambda>r. fst r = DEBUG \<or> fst r = INFO) rs \<and>
           records (snd (jira_search svc cfg jql field_names max_results)) =
             rs @ [(WARNING, Hit_maximum_iteration_limit max_iterations),
                   (INFO, Fetched_done (length (concat (map (\<lambda>j. issues_of (pg j)) [0..<max_iterations]))))]"
proof -
  let ?base = "base_request cfg jql field_names max_results"
  obtain st where st: "search_loop svc ?base initial_state = search_loop svc ?base st"
    "iteration st = max_iterations" "length (sent st) = max_iterations" "quiet st"
    "all_issues st = concat (map (\<lambda>j. issues_of (pg j)) [0..<max_iterations])"
    using search_loop_run [of max_iterations svc pg initial_state ?base] pages cont
    by (auto simp: initial_state_simps quiet_def)
  let ?r = "jira_search svc cfg jql field_names max_results"
  have r: "?r = (Inr (all_issues st),
                 effects_of (logger INFO (Fetched_done (length (all_issues st)))
                   (logger WARNING (Hit_maximum_iteration_limit max_iterations) st)))"
    using st(1,2) by (simp add: jira_search_def Let_def log_simps search_loop_exit)
  show "fst ?r = Inr (concat (map (\<lambda>j. issues_of (pg j)) [0..<max_iterations]))"
    by (simp add: r st)
  show "length (requests (snd ?r)) = max_iterations"
    by (simp add: r effects_of_def log_simps st)
  show "\<exists>rs. list_all (\<lambda>r. fst r = DEBUG \<or> fst r = INFO) rs \<and>
           records (snd ?r) =
             rs @ [(WARNING, Hit_maximum_iteration_limit max_iterations),
                   (INFO, Fetched_done (length (concat (map (\<lambda>j. issues_of (pg j)) [0..<max_iterations]))))]"
    using st(4,5) by (intro exI [of _ "logged st"]) (simp add: r effects_of_def log_simps quiet_def)
qed

lemma page_of_serve: "page_of (serve pg k) = Some (pg k)"
  by (simp add: page_of_def serve_def)

subsection \<open>The claims about the search\<close>

text \<open>
  Claim C1. When every request is answered with a page, \<^verbatim>\<open>jira_search\<close> returns the
  concatenation of the issue lists of the pages it fetched, in page order; the length of
  the returned list is the sum of the sizes of these pages. The fetched pages are the
  pages \<open>0, \<dots>, n - 1\<close>, where \<open>n\<close> is the number of requests sent: every page
  before the last fetched one has issues and a token, and the last fetched one is a
  page without issues or without a token, or the hundredth page.
\<close>

theorem search_concatenates_fetched_pages:
  assumes "\<And>k. k < 100 \<Longrightarrow> page_of (svc k) = Some (pg k)"
  shows "\<exists>n xs. length (requests (snd (jira_search svc cfg jql field_names max_results))) = n \<and>
           fst (jira_search svc cfg jql field_names max_results) = Inr xs \<and>
           xs = concat (map (\<lambda>k. issues_of (pg k)) [0..<n]) \<and>
           length xs = (\<Sum>k = 0..<n. length (issues_of (pg k))) \<and>
           0 < n \<and> (n = 100 \<or> last_page (pg (n - 1))) \<and>
           (\<forall>j. Suc j < n \<longrightarrow> \<not> last_page (pg j))"
proof -
  have len: "length (concat (map (\<lambda>k. issues_of (pg k)) [0..<n])) =
      (\<Sum>k = 0..<n. length (issues_of (pg k)))" for n
    by (simp add: length_concat comp_def interv_sum_list_conv_sum_set_nat)
  show ?thesis
  proof (cases "\<exists>k. k < 100 \<and> last_page (pg k)")
    case True
    then obtain k where k: "k < 100" "last_page (pg k)" "\<forall>j<k. \<not> (j < 100 \<and> last_page (pg j))"
      using exists_least_iff [of "\<lambda>k. k < 100 \<and> last_page (pg k)"] by auto
    then have cont: "\<And>j. j < k \<Longrightarrow> \<not> last_page (pg j)" by auto
    have pages: "\<And>j. j \<le> k \<Longrightarrow> page_of (svc j) = Some (pg j)"
      using assms k(1) by simp
    from jira_search_stops_at [of k svc pg cfg jql field_names max_results, OF pages _ cont k(2)]
      k(1,2) cont len [of "Suc k"]
    show ?thesis by (simp add: max_iterations_def)
  next
    case False
    then have cont: "\<And>j. j < max_iterations \<Longrightarrow> \<not> last_page (pg j)"
      by (simp add: max_iterations_def)
    have pages: "\<And>j. j < max_iterations \<Longrightarrow> page_of (svc j) = Some (pg j)"
      using assms by (simp add: max_iterations_def)
    from jira_search_cap(1,2) [of svc pg cfg jql field_names max_results, OF pages cont]
      cont len [of 100]
    show ?thesis by (simp add: max_iterations_def)
  qed
qed

theorem search_concatenates_fetched_pages_witness:
  "fst (jira_search (serve three_pages) example_config ''reporter = currentUser()'' None 100) =
     Inr [1, 2, 3, 4, 5] \<and>
   length (requests (snd (jira_search (serve three_pages) example_config
     ''reporter = currentUser()'' None 100))) = 3"
proof -
  let ?r = "jira_search (serve three_pages) example_config ''reporter = currentUser()'' None 100"
  obtain n xs where n: "length (requests (snd ?r)) = n" "fst ?r = Inr xs"
    "xs = concat (map (\<lambda>k. issues_of (three_pages k)) [0..<n])"
    "0 < n" "n = 100 \<or> last_page (three_pages (n - 1))"
    "\<forall>j. Suc j < n \<longrightarrow> \<not> last_page (three_pages j)"
    using search_concatenates_fetched_pages [of "serve three_pages" three_pages example_config
        "''reporter = currentUser()''" None 100]
    by (auto simp: page_of_serve)
  have l2: "last_page (three_pages 2)"
    by (simp add: last_page_def three_pages_def truthy_def)
  have nl: "\<not> last_page (three_pages 0)" "\<not> last_page (three_pages 1)"
    by (simp_all add: last_page_def three_pages_def truthy_def issues_of_def)
  from n(6) [rule_format, of 2] l2 have "n \<le> 3"
    by (cases "Suc 2 < n") simp_all
  moreover have "n \<noteq> 1" "n \<noteq> 2"
    using n(5) nl by auto
  ultimately have "n = 3"
    using n(4) by arith
  have eq: "[0..<3] = [0, 1, 2]"
    by (simp add: upt_rec)
  have v: "issues_of (three_pages 0) = [1, 2]" "issues_of (three_pages (Suc 0)) = [3]"
    "issues_of (three_pages 2) = [4, 5]"
    by (simp_all add: three_pages_def issues_of_def)
  from n(1,2,3) show ?thesis
    unfolding \<open>n = 3\<close> eq by (simp add: v)
qed

text \<open>
  Claim C2. Whatever the service answers, \<^verbatim>\<open>jira_search\<close> sends at most 100 requests.
  When the first 100 pages all have issues and a token, it sends exactly 100 requests,
  returns the issues of these 100 pages, and logs the warning about the iteration limit
  and no error.
\<close>

theorem search_iteration_cap:
  "length (requests (snd (jira_search svc cfg jql field_names max_results))) \<le> 100 \<and>
   ((\<forall>k<100. page_of (svc k) = Some (pg k) \<and> issues_of (pg k) \<noteq> [] \<and>
        truthy (nextPageToken (pg k))) \<longrightarrow>
    length (requests (snd (jira_search svc cfg jql field_names max_results))) = 100 \<and>
    fst (jira_search svc cfg jql field_names max_results) =
      Inr (concat (map (\<lambda>k. issues_of (pg k)) [0..<100])) \<and>
    (WARNING, Hit_maximum_iteration_limit 100)
      \<in> set (records (snd (jira_search svc cfg jql field_names max_results))) \<and>
    (\<forall>m. (ERROR, m) \<notin> set (records (snd (jira_search svc cfg jql field_names max_results)))))"
proof (intro conjI impI)
  show "length (requests (snd (jira_search svc cfg jql field_names max_results))) \<le> 100"
    using jira_search_bound [of svc cfg jql field_names max_results]
    unfolding max_iterations_def .
next
  assume a: "\<forall>k<100. page_of (svc k) = Some (pg k) \<and> issues_of (pg k) \<noteq> [] \<and>
        truthy (nextPageToken (pg k))"
  then have pages: "\<And>j. j < max_iterations \<Longrightarrow> page_of (svc j) = Some (pg j)"
    and cont: "\<And>j. j < max_iterations \<Longrightarrow> \<not> last_page (pg j)"
    unfolding max_iterations_def last_page_def by blast+
  note cap = jira_search_cap [of svc pg cfg jql field_names max_results, OF pages cont]
  show "length (requests (snd (jira_search svc cfg jql field_names max_results))) = 100"
    using cap(2) unfolding max_iterations_def .
  show "fst (jira_search svc cfg jql field_names max_results) =
      Inr (concat (map (\<lambda>k. issues_of (pg k)) [0..<100]))"
    using cap(1) unfolding max_iterations_def .
  from cap(3) obtain rs c where rs: "list_all (\<lambda>r. fst r = DEBUG \<or> fst r = INFO) rs"
    "records (snd (jira_search svc cfg jql field_names max_results)) =
       rs @ [(WARNING, Hit_maximum_iteration_limit max_iterations), (INFO, Fetched_done c)]"
    by blast
  show "(WARNING, Hit_maximum_iteration_limit 100)
      \<in> set (records (snd (jira_search svc cfg jql field_names max_results)))"
    unfolding rs(2) max_iterations_def by simp
  show "\<forall>m. (ERROR, m) \<notin> set (records (snd (jira_search svc cfg jql field_names max_results)))"
    using rs(1) unfolding rs(2) by (auto simp: list_all_iff)
qed

theorem search_iteration_cap_witness:
  "length (requests (snd (jira_search (serve endless_pages) example_config
      ''assignee = currentUser()'' None 100))) = 100 \<and>
   fst (jira_search (serve endless_pages) example_config ''assignee = currentUser()'' None 100) =
      Inr [0..<100] \<and>
   (WARNING, Hit_maximum_iteration_limit 100)
      \<in> set (records (snd (jira_search (serve endless_pages) example_config
          ''assignee = currentUser()'' None 100)))"
proof -
  have h: "\<forall>k<100. page_of (serve endless_pages k) = Some (endless_pages k) \<and>
      issues_of (endless_pages k) \<noteq> [] \<and> truthy (nextPageToken (endless_pages k))"
    by (simp add: page_of_serve endless_pages_def issues_of_def truthy_def)
  have c: "concat (map (\<lambda>k. issues_of (endless_pages k)) xs) = xs" for xs
    by (induction xs) (simp_all add: endless_pages_def issues_of_def)
  from search_iteration_cap [of "serve endless_pages" example_config
        "''assignee = currentUser()''" None 100 endless_pages] h
  show ?thesis
    unfolding c by blast
qed

text \<open>
  Claim C3. When page \<open>k\<close> is fetched (all pages before it have issues and a token)
  and it has no token, or has no issues, \<^verbatim>\<open>jira_search\<close> sends no request after
  the one for page \<open>k\<close> and returns the issues of the pages up to \<open>k\<close>. Nothing is
  assumed about \<^verbatim>\<open>total\<close> or, for a page without issues, about its token.
\<close>

theorem search_stops_after_last_page:
  assumes "\<And>j. j \<le> k \<Longrightarrow> page_of (svc j) = Some (pg j)"
    and "k < 100"
    and "\<And>j. j < k \<Longrightarrow> issues_of (pg j) \<noteq> [] \<and> truthy (nextPageToken (pg j))"
    and "nextPageToken (pg k) = None \<or> issues_of (pg k) = []"
  shows "length (requests (snd (jira_search svc cfg jql field_names max_results))) = Suc k \<and>
         fst (jira_search svc cfg jql field_names max_results) =
           Inr (concat (map (\<lambda>j. issues_of (pg j)) [0..<Suc k]))"
proof -
  have "last_page (pg k)"
    using assms(4) by (auto simp: last_page_def truthy_def)
  moreover have "\<And>j. j < k \<Longrightarrow> \<not> last_page (pg j)"
    using assms(3) by (simp add: last_page_def)
  moreover have "k < max_iterations"
    using assms(2) by (simp add: max_iterations_def)
  ultimately show ?thesis
    using jira_search_stops_at(1,2) [of k svc pg cfg jql field_names max_results] assms(1)
    by simp
qed

theorem search_stops_after_last_page_witness:
  "length (requests (snd (jira_search (serve one_page_of_many) example_config
      ''assignee = currentUser()'' None 100))) = 1 \<and>
   fst (jira_search (serve one_page_of_many) example_config ''assignee = currentUser()'' None 100) =
      Inr [0, 0] \<and>
   length (requests (snd (jira_search (serve empty_second_page) example_config
      ''assignee = currentUser()'' None 100))) = 2 \<and>
   fst (jira_search (serve empty_second_page) example_config ''assignee = currentUser()'' None 100) =
      Inr [0]"
proof -
  have a: "nextPageToken (one_page_of_many 0) = None \<or> issues_of (one_page_of_many 0) = []"
    by (simp add: one_page_of_many_def)
  have b: "nextPageToken (empty_second_page 1) = None \<or> issues_of (empty_second_page 1) = []"
    by (simp add: empty_second_page_def issues_of_def)
  have c: "issues_of (empty_second_page j) \<noteq> [] \<and> truthy (nextPageToken (empty_second_page j))"
    if "j < 1" for j
    using that by (simp add: empty_second_page_def issues_of_def truthy_def)
  have eq: "[0..<Suc 0] = [0]" "[0..<Suc 1] = [0, Suc 0]"
    by (simp_all add: upt_rec)
  have v: "issues_of (one_page_of_many 0) = [0, 0]" "issues_of (empty_second_page 0) = [0]"
    "issues_of (empty_second_page (Suc 0)) = []"
    by (simp_all add: one_page_of_many_def empty_second_page_def issues_of_def)
  from search_stops_after_last_page [of 0 "serve one_page_of_many" one_page_of_many
        example_config "''assignee = currentUser()''" None 100, OF page_of_serve _ _ a]
  have 1: "length (requests (snd (jira_search (serve one_page_of_many) example_config
      ''assignee = currentUser()'' None 100))) = 1 \<and>
   fst (jira_search (serve one_page_of_many) example_config ''assignee = currentUser()'' None 100) =
      Inr [0, 0]"
    unfolding eq by (simp add: v)
  from search_stops_after_last_page [of 1 "serve empty_second_page" empty_second_page
        example_config "''assignee = currentUser()''" None 100, OF page_of_serve _ c b]
  have 2: "length (requests (snd (jira_search (serve empty_second_page) example_config
      ''assignee = currentUser()'' None 100))) = 2 \<and>
   fst (jira_search (serve empty_second_page) example_config ''assignee = currentUser()'' None 100) =
      Inr [0]"
    unfolding eq by (simp add: v)
  from 1 2 show ?thesis by blast
qed

text \<open>
  Claim C9. When page \<open>k\<close> is fetched and its token is the empty string,
  \<^verbatim>\<open>jira_search\<close> does what it does for a page without a token: it sends no request
  after the one for page \<open>k\<close> and returns the issues of the pages up to \<open>k\<close>.
\<close>

theorem search_empty_token_stops:
  assumes "\<And>j. j \<le> k \<Longrightarrow> page_of (svc j) = Some (pg j)"
    and "k < 100"
    and "\<And>j. j < k \<Longrightarrow> issues_of (pg j) \<noteq> [] \<and> truthy (nextPageToken (pg j))"
    and "nextPageToken (pg k) = Some []"
  shows "length (requests (snd (jira_search svc cfg jql field_names max_results))) = Suc k \<and>
         fst (jira_search svc cfg jql field_names max_results) =
           Inr (concat (map (\<lambda>j. issues_of (pg j)) [0..<Suc k]))"
proof -
  have "last_page (pg k)"
    using assms(4) by (simp add: last_page_def truthy_def)
  moreover have "\<And>j. j < k \<Longrightarrow> \<not> last_page (pg j)"
    using assms(3) by (simp add: last_page_def)
  moreover have "k < max_iterations"
    using assms(2) by (simp add: max_iterations_def)
  ultimately show ?thesis
    using jira_search_stops_at(1,2) [of k svc pg cfg jql field_names max_results] assms(1)
    by simp
qed

theorem search_empty_token_stops_witness:
  "length (requests (snd (jira_search (serve empty_token_page) example_config
      ''assignee = currentUser()'' None 100))) = 2 \<and>
   fst (jira_search (serve empty_token_page) example_config ''assignee = currentUser()'' None 100) =
      Inr [0, 1]"
proof -
  have b: "nextPageToken (empty_token_page 1) = Some []"
    by (simp add: empty_token_page_def)
  have c: "issues_of (empty_token_page j) \<noteq> [] \<and> truthy (nextPageToken (empty_token_page j))"
    if "j < 1" for j
    using that by (simp add: empty_token_page_def issues_of_def truthy_def)
  have eq: "[0..<Suc 1] = [0, Suc 0]"
    by (simp add: upt_rec)
  have v: "issues_of (empty_token_page 0) = [0]" "issues_of (empty_token_page (Suc 0)) = [1]"
    by (simp_all add: empty_token_page_def issues_of_def)
  from search_empty_token_stops [of 1 "serve empty_token_page" empty_token_page
        example_config "''assignee = currentUser()''" None 100, OF page_of_serve _ c b]
  show ?thesis
    unfolding eq by (simp add: v)
qed

section \<open>Properties of \<^verbatim>\<open>count_by_type\<close>\<close>

lemma type_names_Some:
  "map issuetype_name iss = map Some types \<Longrightarrow> type_names iss = Inr types"
  by (induction iss arbitrary: types) auto

lemma type_names_None:
  "None \<in> set (map issuetype_name iss) \<Longrightarrow> type_names iss = Inl KeyError"
  by (induction iss) (auto split: option.splits sum.splits)

lemma Counter_snoc: "Counter (xs @ [x]) = counter_incr x (Counter xs)"
  by (simp add: Counter_def)

lemma fst_counter_incr:
  "map fst (counter_incr k c) = (if k \<in> fst ` set c then map fst c else map fst c @ [k])"
  by (induction c) force+

lemma map_of_counter_incr:
  "distinct (map fst c) \<Longrightarrow>
   map_of (counter_incr k c) =
     (map_of c)(k \<mapsto> (case map_of c k of None \<Rightarrow> 1 | Some n \<Rightarrow> n + 1))"
  by (induction c) (auto simp: fun_eq_iff image_iff dest: map_of_SomeD)

lemma sum_counter_incr: "sum_list (map snd (counter_incr k c)) = Suc (sum_list (map snd c))"
  by (induction c) auto

lemma Counter_props:
  "distinct (map fst (Counter xs)) \<and> fst ` set (Counter xs) = set xs \<and>
   (\<forall>t. map_of (Counter xs) t = (if t \<in> set xs then Some (count_list xs t) else None)) \<and>
   sum_list (map snd (Counter xs)) = length xs"
proof (induction xs rule: rev_induct)
  case Nil
  show ?case by (simp add: Counter_def)
next
  case (snoc x xs)
  let ?c = "Counter xs"
  from snoc have d: "distinct (map fst ?c)" and k: "fst ` set ?c = set xs"
    and m: "\<And>t. map_of ?c t = (if t \<in> set xs then Some (count_list xs t) else None)"
    and s: "sum_list (map snd ?c) = length xs"
    by auto
  have 1: "distinct (map fst (counter_incr x ?c))"
    using d k by (simp add: fst_counter_incr)
  have 2: "fst ` set (counter_incr x ?c) = set (xs @ [x])"
    using k fst_counter_incr [of x ?c] 
    by (metis (no_types, lifting) Un_insert_right append_Nil2 insert_absorb list.set(2) list.set_map set_append)
  have 3: "map_of (counter_incr x ?c) t =
      (if t \<in> set (xs @ [x]) then Some (count_list (xs @ [x]) t) else None)" for t
    using m by (simp add: map_of_counter_incr [OF d])
  show ?case
    unfolding Counter_snoc using 1 2 3 s by (simp add: sum_counter_incr)
qed

lemma length_takeWhile_found:
  "\<exists>x\<in>set xs. \<not> P x \<Longrightarrow> length (takeWhile P xs) < length xs"
  by (induction xs) auto

lemma Counter_order:
  "sorted_wrt (\<lambda>a b. length (takeWhile (\<lambda>x. x \<noteq> a) xs) < length (takeWhile (\<lambda>x. x \<noteq> b) xs))
     (map fst (Counter xs))"
proof (induction xs rule: rev_induct)
  case Nil
  show ?case by (simp add: Counter_def)
next
  case (snoc x xs)
  let ?c = "Counter xs"
  have k: "fst ` set ?c = set xs" using Counter_props [of xs] by blast
  have old: "length (takeWhile (\<lambda>y. y \<noteq> a) (xs @ [x])) = length (takeWhile (\<lambda>y. y \<noteq> a) xs)"
    if "a \<in> set xs" for a
    using that by (simp add: takeWhile_append1)
  have lt: "length (takeWhile (\<lambda>y. y \<noteq> a) xs) < length xs" if "a \<in> set xs" for a
    using that by (intro length_takeWhile_found) auto
  have new: "length (takeWhile (\<lambda>y. y \<noteq> x) (xs @ [x])) = length xs" if "x \<notin> set xs"
    using that by (subst takeWhile_append2) auto
  have keep: "sorted_wrt (\<lambda>a b. length (takeWhile (\<lambda>x. x \<noteq> a) (xs @ [x]))
       < length (takeWhile (\<lambda>x. x \<noteq> b) (xs @ [x]))) (map fst ?c)"
  proof (rule sorted_wrt_mono_rel [OF _ snoc])
    fix a b assume "a \<in> set (map fst ?c)" "b \<in> set (map fst ?c)"
    then have "a \<in> set xs" "b \<in> set xs" using k by auto
    then show "length (takeWhile (\<lambda>x. x \<noteq> a) xs) < length (takeWhile (\<lambda>x. x \<noteq> b) xs) \<Longrightarrow>
      length (takeWhile (\<lambda>y. y \<noteq> a) (xs @ [x])) < length (takeWhile (\<lambda>y. y \<noteq> b) (xs @ [x]))"
      by (simp add: old)
  qed
  show ?case
  proof (cases "x \<in> set xs")
    case True
    with keep k show ?thesis
      by (simp add: Counter_snoc fst_counter_incr)
  next
    case False
    with keep k show ?thesis
      by (auto simp add: Counter_snoc fst_counter_incr sorted_wrt_append old lt new)
  qed
qed

lemma insort_key_display:
  assumes "sorted_wrt (\<lambda>a b. f a < f b \<or> (f a = f b \<and> Q a b)) ys"
    and "\<forall>y\<in>set ys. Q x y"
  shows "sorted_wrt (\<lambda>a b. f a < f b \<or> (f a = f b \<and> Q a b)) (insort_key f x ys)"
  using assms
proof (induction ys)
  case Nil
  then show ?case by simp
next
  case (Cons y ys)
  then show ?case by (auto simp: set_insort_key)
qed

lemma sort_key_display:
  "sorted_wrt Q xs \<Longrightarrow>
   sorted_wrt (\<lambda>a b. f a < f b \<or> (f a = f b \<and> Q a b)) (sort_key f xs)"
proof (induction xs)
  case Nil
  then show ?case by simp
next
  case (Cons x xs)
  then show ?case
    by (simp add: insort_key_display)
qed

lemma named_issues:
  assumes "\<forall>i\<in>set iss. issuetype_name i \<noteq> None"
  shows "\<exists>types. map issuetype_name iss = map Some types"
  using assms
proof (induction iss)
  case Nil
  then show ?case by simp
next
  case (Cons i iss)
  then obtain n types where "issuetype_name i = Some n" "map issuetype_name iss = map Some types"
    by auto
  then have "map issuetype_name (i # iss) = map Some (n # types)" by simp
  then show ?case by blast
qed

lemma number_of_type_names:
  "map issuetype_name iss = map Some types \<Longrightarrow> number_of_type iss t = count_list types t"
  by (induction iss arbitrary: types) (auto simp: number_of_type_def)

lemma first_seen_names:
  "map issuetype_name iss = map Some types \<Longrightarrow>
   first_seen iss t = length (takeWhile (\<lambda>x. x \<noteq> t) types)"
  by (induction iss arbitrary: types) (auto simp: first_seen_def)

lemma count_by_type_names:
  "map issuetype_name iss = map Some types \<Longrightarrow> count_by_type iss = Inr (Counter types)"
  by (simp add: count_by_type_def type_names_Some)

lemma number_of_type_mset:
  "mset iss' = mset iss \<Longrightarrow> number_of_type iss' t = number_of_type iss t"
  unfolding number_of_type_def
  by (metis mset_filter size_mset)

lemma count_by_type_props:
  assumes "\<forall>i\<in>set iss. issuetype_name i \<noteq> None"
  shows "\<exists>c. count_by_type iss = Inr c \<and> distinct (map fst c) \<and>
     (\<forall>t. map_of c t = (if 0 < number_of_type iss t then Some (number_of_type iss t) else None)) \<and>
     sum_list (map snd c) = length iss \<and>
     sorted_wrt (\<lambda>a b. first_seen iss (fst a) < first_seen iss (fst b)) c"
proof -
  from named_issues [OF assms] obtain types where t: "map issuetype_name iss = map Some types" ..
  have len: "length iss = length types"
    using t by (metis length_map)
  have pos: "0 < count_list types x \<longleftrightarrow> x \<in> set types" for x
    using count_list_0_iff [of types x] by auto
  have "sorted_wrt (\<lambda>a b. first_seen iss a < first_seen iss b) (map fst (Counter types))"
    using Counter_order [of types] by (simp add: first_seen_names [OF t])
  then have "sorted_wrt (\<lambda>a b. first_seen iss (fst a) < first_seen iss (fst b)) (Counter types)"
    by (simp add: sorted_wrt_map)
  with Counter_props [of types] show ?thesis
    by (intro exI [of _ "Counter types"])
       (simp add: count_by_type_names [OF t] number_of_type_names [OF t] len pos)
qed

text \<open>
  Claim C8. Over the issues Bug, Bug, Story, \<^verbatim>\<open>count_by_type\<close> yields Bug: 2 and
  Story: 1, and \<^verbatim>\<open>most_common\<close> lists Bug first. When every issue has a type name,
  \<^verbatim>\<open>count_by_type\<close> returns a counter that maps each type name to the number of issues
  of that type (a name is a key exactly when an issue has it); a list with the same
  issues in another order gives the same mapping; \<^verbatim>\<open>most_common\<close> lists the same
  entries by descending count, entries with equal counts in the order in which their
  types are first seen.
\<close>

theorem count_by_type_mapping_and_display:
  "count_by_type [typed ''Bug'', typed ''Bug'', typed ''Story''] = Inr [(''Bug'', 2), (''Story'', 1)] \<and>
   most_common [(''Bug'', 2), (''Story'', 1 :: nat)] = [(''Bug'', 2), (''Story'', 1)] \<and>
   ((\<forall>i\<in>set iss. issuetype_name i \<noteq> None) \<longrightarrow>
    (\<exists>c. count_by_type iss = Inr c \<and> distinct (map fst c) \<and>
       (\<forall>t. counter_get c t = number_of_type iss t) \<and>
       (\<forall>t. t \<in> fst ` set c \<longleftrightarrow> 0 < number_of_type iss t) \<and>
       (\<forall>iss'. mset iss' = mset iss \<longrightarrow>
          (\<exists>c'. count_by_type iss' = Inr c' \<and> map_of c' = map_of c)) \<and>
       mset (most_common c) = mset c \<and>
       sorted_wrt (display_order iss) (most_common c)))"
proof (intro conjI impI)
  show "count_by_type [typed ''Bug'', typed ''Bug'', typed ''Story''] =
      Inr [(''Bug'', 2), (''Story'', 1)]"
    by (simp add: count_by_type_def typed_def Counter_def)
  show "most_common [(''Bug'', 2), (''Story'', 1 :: nat)] = [(''Bug'', 2), (''Story'', 1)]"
    by (simp add: most_common_def)
next
  assume a: "\<forall>i\<in>set iss. issuetype_name i \<noteq> None"
  from count_by_type_props [OF a] obtain c where c: "count_by_type iss = Inr c"
    "distinct (map fst c)"
    "\<And>t. map_of c t = (if 0 < number_of_type iss t then Some (number_of_type iss t) else None)"
    "sorted_wrt (\<lambda>a b. first_seen iss (fst a) < first_seen iss (fst b)) c"
    by blast
  have get: "counter_get c t = number_of_type iss t" for t
    by (simp add: counter_get_def c(3))
  have keys: "t \<in> fst ` set c \<longleftrightarrow> 0 < number_of_type iss t" for t
  proof -
    have "t \<in> fst ` set c \<longleftrightarrow> map_of c t \<noteq> None"
      by (simp add: map_of_eq_None_iff)
    then show ?thesis by (simp add: c(3))
  qed
  have perm: "\<exists>c'. count_by_type iss' = Inr c' \<and> map_of c' = map_of c"
    if m: "mset iss' = mset iss" for iss'
  proof -
    from m have "set iss' = set iss" by (rule mset_eq_setD)
    with a have "\<forall>i\<in>set iss'. issuetype_name i \<noteq> None" by simp
    from count_by_type_props [OF this] obtain c' where c': "count_by_type iss' = Inr c'"
      "\<And>t. map_of c' t =
        (if 0 < number_of_type iss' t then Some (number_of_type iss' t) else None)"
      by blast
    have "map_of c' = map_of c"
      by (rule ext) (simp add: c' c(3) number_of_type_mset [OF m])
    with c'(1) show ?thesis by blast
  qed
  have "sorted_wrt (\<lambda>a b. (case a of (k, n) \<Rightarrow> - int n) < (case b of (k, n) \<Rightarrow> - int n) \<or>
      ((case a of (k, n) \<Rightarrow> - int n) = (case b of (k, n) \<Rightarrow> - int n) \<and>
       first_seen iss (fst a) < first_seen iss (fst b))) (most_common c)"
    unfolding most_common_def by (rule sort_key_display) (rule c(4))
  then have disp: "sorted_wrt (display_order iss) (most_common c)"
    by (rule sorted_wrt_mono_rel [rotated]) (auto simp: display_order_def)
  have "mset (most_common c) = mset c"
    by (simp add: most_common_def)
  with c(1,2) get keys perm disp
  show "\<exists>c. count_by_type iss = Inr c \<and> distinct (map fst c) \<and>
       (\<forall>t. counter_get c t = number_of_type iss t) \<and>
       (\<forall>t. t \<in> fst ` set c \<longleftrightarrow> 0 < number_of_type iss t) \<and>
       (\<forall>iss'. mset iss' = mset iss \<longrightarrow>
          (\<exists>c'. count_by_type iss' = Inr c' \<and> map_of c' = map_of c)) \<and>
       mset (most_common c) = mset c \<and>
       sorted_wrt (display_order iss) (most_common c)"
    by (intro exI [of _ c]) blast
qed

theorem count_by_type_mapping_and_display_witness:
  "count_by_type mixed_issues = Inr [(''Task'', 1), (''Story'', 2), (''Bug'', 2)] \<and>
   most_common [(''Task'', 1), (''Story'', 2), (''Bug'', 2 :: nat)] =
     [(''Story'', 2), (''Bug'', 2), (''Task'', 1)] \<and>
   counter_get [(''Task'', 1), (''Story'', 2), (''Bug'', 2 :: nat)] ''Bug'' =
     number_of_type mixed_issues ''Bug'' \<and>
   sorted_wrt (display_order mixed_issues) [(''Story'', 2), (''Bug'', 2), (''Task'', 1)]"
proof -
  have e: "count_by_type mixed_issues = Inr [(''Task'', 1), (''Story'', 2), (''Bug'', 2)]"
    by (simp add: count_by_type_def mixed_issues_def typed_def Counter_def)
  have m: "most_common [(''Task'', 1), (''Story'', 2), (''Bug'', 2 :: nat)] =
     [(''Story'', 2), (''Bug'', 2), (''Task'', 1)]"
    by (simp add: most_common_def)
  have h: "\<forall>i\<in>set mixed_issues. issuetype_name i \<noteq> None"
    by (simp add: mixed_issues_def typed_def)
  from count_by_type_mapping_and_display [of mixed_issues] h
  obtain c where c: "count_by_type mixed_issues = Inr c"
    "\<forall>t. counter_get c t = number_of_type mixed_issues t"
    "sorted_wrt (display_order mixed_issues) (most_common c)"
    by blast
  from c(1) e have "c = [(''Task'', 1), (''Story'', 2), (''Bug'', 2)]" by simp
  with c(2,3) e m show ?thesis by simp
qed

text \<open>
  Claim C10. When every issue has a type name, the counts of the counter that
  \<^verbatim>\<open>count_by_type\<close> returns add up to the number of issues: the keys are distinct and
  each count is the number of issues of its type.
\<close>

theorem count_by_type_counts_every_issue_once:
  assumes "\<forall>i\<in>set iss. issuetype_name i \<noteq> None"
  shows "\<exists>c. count_by_type iss = Inr c \<and> sum_list (map snd c) = length iss \<and>
           distinct (map fst c) \<and> (\<forall>(t, n)\<in>set c. n = number_of_type iss t)"
proof -
  from count_by_type_props [OF assms] obtain c where c: "count_by_type iss = Inr c"
    "distinct (map fst c)"
    "\<And>t. map_of c t = (if 0 < number_of_type iss t then Some (number_of_type iss t) else None)"
    "sum_list (map snd c) = length iss"
    by blast
  have "n = number_of_type iss t" if "(t, n) \<in> set c" for t n
    using map_of_is_SomeI [OF c(2) that] c(3) [of t] by (simp split: if_splits)
  with c show ?thesis by (intro exI [of _ c]) auto
qed

theorem count_by_type_counts_every_issue_once_witness:
  "count_by_type mixed_issues = Inr [(''Task'', 1), (''Story'', 2), (''Bug'', 2)] \<and>
   sum_list (map snd [(''Task'', 1), (''Story'', 2), (''Bug'', 2 :: nat)]) = length mixed_issues"
proof -
  have e: "count_by_type mixed_issues = Inr [(''Task'', 1), (''Story'', 2), (''Bug'', 2)]"
    by (simp add: count_by_type_def mixed_issues_def typed_def Counter_def)
  have h: "\<forall>i\<in>set mixed_issues. issuetype_name i \<noteq> None"
    by (simp add: mixed_issues_def typed_def)
  from count_by_type_counts_every_issue_once [OF h]
  obtain c where c: "count_by_type mixed_issues = Inr c"
    "sum_list (map snd c) = length mixed_issues"
    by blast
  from c(1) e have "c = [(''Task'', 1), (''Story'', 2), (''Bug'', 2)]" by simp
  with c(2) e show ?thesis by simp
qed

section \<open>Properties of the rounding to binary64\<close>

lemma pow2_powi: "pow2 e = 2 powi e"
  by (simp add: pow2_def power_int_def field_simps)

lemma pow2_pos [simp]: "0 < pow2 e"
  by (simp add: pow2_powi)

lemma pow2_add: "pow2 (a + b) = pow2 a * pow2 b"
  by (simp add: pow2_powi power_int_add)

lemma pow2_mono: "a \<le> b \<Longrightarrow> pow2 a \<le> pow2 b"
  by (simp add: pow2_powi power_int_increasing)

lemma pow2_strict_mono: "a < b \<Longrightarrow> pow2 a < pow2 b"
  by (simp add: pow2_powi power_int_strict_increasing)

lemma pow2_less_iff: "pow2 a < pow2 b \<longleftrightarrow> a < b"
  using pow2_strict_mono [of a b] pow2_mono [of b a] by (auto simp: not_less [symmetric])

lemma pow2_nat: "pow2 (int n) = 2 ^ n"
  by (simp add: pow2_def)

lemma bit_length_nonneg: "0 \<le> bit_length n"
  by (induction n rule: bit_length.induct) (subst bit_length.simps, simp)

lemma bit_length_bounds:
  "0 < n \<Longrightarrow> 1 \<le> bit_length n \<and> 2 ^ nat (bit_length n - 1) \<le> n \<and> n < 2 ^ nat (bit_length n)"
proof (induction n rule: bit_length.induct)
  case (1 n)
  show ?case
  proof (cases "n div 2 = 0")
    case True
    with 1(2) have "n = 1" by presburger
    then show ?thesis
      by (simp add: bit_length.simps [of 1] bit_length.simps [of 0])
  next
    case False
    with 1(2) have pos: "0 < n div 2" by presburger
    from 1(1) [OF _ pos] 1(2) have ih: "1 \<le> bit_length (n div 2)"
      "2 ^ nat (bit_length (n div 2) - 1) \<le> n div 2"
      "n div 2 < 2 ^ nat (bit_length (n div 2))"
      by simp_all
    have b: "bit_length n = 1 + bit_length (n div 2)"
      using 1(2) by (subst bit_length.simps) simp
    have s: "nat (bit_length (n div 2)) = Suc (nat (bit_length (n div 2) - 1))"
      using ih(1) by simp
    have "2 * 2 ^ nat (bit_length (n div 2) - 1) \<le> n"
      using ih(2) by presburger
    moreover have "n < 2 * 2 ^ nat (bit_length (n div 2))"
      using ih(3) by presburger
    ultimately show ?thesis
      using ih(1) by (simp add: b s nat_add_distrib)
  qed
qed

lemma floor_log2_correct:
  assumes "0 < x"
  shows "pow2 (floor_log2 x) \<le> x \<and> x < pow2 (floor_log2 x + 1)"
proof -
  obtain p q where pq: "quotient_of x = (p, q)" by (cases "quotient_of x")
  then have q: "0 < q" and x: "x = of_int p / of_int q"
    by (simp_all add: quotient_of_denom_pos quotient_of_div)
  with assms have p: "0 < p"
    by (simp add: zero_less_divide_iff)
  let ?bp = "bit_length p" and ?bq = "bit_length q"
  note P = bit_length_bounds [OF p] and Q = bit_length_bounds [OF q]
  have p_up: "(of_int p :: rat) < pow2 ?bp"
  proof -
    have "(of_int p :: rat) < of_int (2 ^ nat ?bp)" using P by (simp only: of_int_less_iff)
    then show ?thesis using P by (simp add: pow2_def)
  qed
  have p_lo: "pow2 (?bp - 1) \<le> (of_int p :: rat)"
  proof -
    have "(of_int (2 ^ nat (?bp - 1)) :: rat) \<le> of_int p" using P by (simp only: of_int_le_iff)
    then show ?thesis using P by (simp add: pow2_def)
  qed
  have q_up: "(of_int q :: rat) < pow2 ?bq"
  proof -
    have "(of_int q :: rat) < of_int (2 ^ nat ?bq)" using Q by (simp only: of_int_less_iff)
    then show ?thesis using Q by (simp add: pow2_def)
  qed
  have q_lo: "pow2 (?bq - 1) \<le> (of_int q :: rat)"
  proof -
    have "(of_int (2 ^ nat (?bq - 1)) :: rat) \<le> of_int q" using Q by (simp only: of_int_le_iff)
    then show ?thesis using Q by (simp add: pow2_def)
  qed
  have qpos: "(0 :: rat) < of_int q" using q by simp
  have up: "x < pow2 (?bp - ?bq + 1)"
  proof -
    have "of_int p < pow2 (?bp - ?bq + 1) * pow2 (?bq - 1)"
      using p_up by (simp add: pow2_add [symmetric])
    also have "\<dots> \<le> pow2 (?bp - ?bq + 1) * of_int q"
      using q_lo by (simp add: mult_left_mono less_imp_le)
    finally show ?thesis using qpos by (simp add: x pos_divide_less_eq)
  qed
  have lo: "pow2 (?bp - ?bq - 1) < x"
  proof -
    have "pow2 (?bp - ?bq - 1) * of_int q < pow2 (?bp - ?bq - 1) * pow2 ?bq"
      using q_up by (simp add: mult_strict_left_mono)
    also have "\<dots> = pow2 (?bp - 1)" by (simp add: pow2_add [symmetric])
    also have "\<dots> \<le> of_int p" by (rule p_lo)
    finally show ?thesis using qpos by (simp add: x pos_less_divide_eq)
  qed
  show ?thesis
  proof (cases "pow2 (?bp - ?bq) \<le> x")
    case True
    then have "floor_log2 x = ?bp - ?bq" by (simp add: floor_log2_def pq)
    with True up show ?thesis by simp
  next
    case False
    then have "floor_log2 x = ?bp - ?bq - 1" by (simp add: floor_log2_def pq)
    with False lo show ?thesis by simp
  qed
qed

lemma floor_log2_unique:
  assumes "pow2 e \<le> x" "x < pow2 (e + 1)"
  shows "floor_log2 x = e"
proof -
  have "0 < x" using assms(1) pow2_pos [of e] by linarith
  from floor_log2_correct [OF this] have f: "pow2 (floor_log2 x) \<le> x" "x < pow2 (floor_log2 x + 1)"
    by simp_all
  have "pow2 e < pow2 (floor_log2 x + 1)" using assms(1) f(2) by linarith
  then have "e < floor_log2 x + 1" by (simp add: pow2_less_iff)
  moreover have "pow2 (floor_log2 x) < pow2 (e + 1)" using assms(2) f(1) by linarith
  then have "floor_log2 x < e + 1" by (simp add: pow2_less_iff)
  ultimately show ?thesis by simp
qed

lemma round_half_even_of_int [simp]: "round_half_even (of_int m) = m"
  by (simp add: round_half_even_def)

lemma round_half_even_mono_le: "x \<le> of_int m \<Longrightarrow> round_half_even x \<le> m"
  unfolding round_half_even_def Let_def
  by (auto simp: floor_le_iff)

lemma round_half_even_mono_ge: "of_int m \<le> x \<Longrightarrow> m \<le> round_half_even x"
  unfolding round_half_even_def Let_def
  by (auto simp: le_floor_iff) linarith+

lemma round64_exact:
  assumes "pow2 e \<le> \<bar>x\<bar>" "\<bar>x\<bar> < pow2 (e + 1)" "e < 1024"
    and "\<bar>x\<bar> / pow2 (max e (- 1022) - 52) = of_int m"
  shows "round64 x = Finite x"
proof -
  have nz: "x \<noteq> 0" using assms(1) pow2_pos [of e] by (auto simp: not_le [symmetric] simp del: not_le)
  have fl: "floor_log2 \<bar>x\<bar> = e" by (rule floor_log2_unique) (rule assms)+
  let ?q = "pow2 (max e (- 1022) - 52)"
  have r: "of_int (round_half_even (\<bar>x\<bar> / ?q)) * ?q = \<bar>x\<bar>"
    using assms(4) pow2_pos [of "max e (- 1022) - 52"] by (simp add: field_simps)
  have b: "\<not> pow2 1024 \<le> \<bar>x\<bar>"
    using assms(2) pow2_mono [of "e + 1" 1024] assms(3) by simp
  have s: "(if 0 < x then \<bar>x\<bar> else - \<bar>x\<bar>) = x"
    by simp
  have "round64 x =
      (if pow2 1024 \<le> of_int (round_half_even (\<bar>x\<bar> / ?q)) * ?q
       then (if x > 0 then PosInf else NegInf)
       else Finite (if x > 0 then of_int (round_half_even (\<bar>x\<bar> / ?q)) * ?q
                    else - (of_int (round_half_even (\<bar>x\<bar> / ?q)) * ?q)))"
    using nz by (simp only: round64_def fl Let_def if_False)
  also have "\<dots> = Finite x"
    unfolding r using b by (simp only: if_False s)
  finally show ?thesis .
qed

lemma round64_overflow:
  assumes "pow2 1024 \<le> \<bar>x\<bar>"
  shows "round64 x = (if x > 0 then PosInf else NegInf)"
proof -
  have pos: "0 < \<bar>x\<bar>" using assms pow2_pos [of 1024] by linarith
  then have nz: "x \<noteq> 0" by simp
  let ?e = "floor_log2 \<bar>x\<bar>"
  from floor_log2_correct [OF pos] have f: "pow2 ?e \<le> \<bar>x\<bar>" "\<bar>x\<bar> < pow2 (?e + 1)"
    by simp_all
  have "pow2 1024 < pow2 (?e + 1)" using assms f(2) by linarith
  then have e: "1024 \<le> ?e" by (simp add: pow2_less_iff)
  then have m: "max ?e (- 1022) = ?e" by simp
  let ?q = "pow2 (?e - 52)"
  have "pow2 52 * ?q \<le> \<bar>x\<bar>"
    using f(1) by (simp add: pow2_add [symmetric])
  then have "of_int (2 ^ 52) \<le> \<bar>x\<bar> / ?q"
    using pow2_nat [of 52] by (simp add: pos_le_divide_eq)
  then have "2 ^ 52 \<le> round_half_even (\<bar>x\<bar> / ?q)"
    by (rule round_half_even_mono_ge)
  then have "(of_int (2 ^ 52) :: rat) \<le> of_int (round_half_even (\<bar>x\<bar> / ?q))"
    by (simp only: of_int_le_iff)
  then have "pow2 52 * ?q \<le> of_int (round_half_even (\<bar>x\<bar> / ?q)) * ?q"
    using pow2_nat [of 52] by (simp add: mult_right_mono less_imp_le)
  then have "pow2 ?e \<le> of_int (round_half_even (\<bar>x\<bar> / ?q)) * ?q"
    by (simp add: pow2_add [symmetric])
  with pow2_mono [OF e] have "pow2 1024 \<le> of_int (round_half_even (\<bar>x\<bar> / ?q)) * ?q"
    by linarith
  then show ?thesis
    using nz by (simp add: round64_def m Let_def)
qed

lemma round64_finite:
  assumes "\<bar>x\<bar> < pow2 1023"
  shows "\<exists>r. round64 x = Finite r"
proof (cases "x = 0")
  case True
  then show ?thesis by (simp add: round64_def)
next
  case False
  then have pos: "0 < \<bar>x\<bar>" by simp
  let ?f = "floor_log2 \<bar>x\<bar>"
  let ?e = "max ?f (- 1022)"
  from floor_log2_correct [OF pos] have f: "pow2 ?f \<le> \<bar>x\<bar>" "\<bar>x\<bar> < pow2 (?f + 1)"
    by simp_all
  have "pow2 ?f < pow2 1023" using assms f(1) by linarith
  then have "?f < 1023" by (simp add: pow2_less_iff)
  then have e: "?e + 1 \<le> 1023" by simp
  let ?q = "pow2 (?e - 52)"
  have "\<bar>x\<bar> < pow2 (?e + 1)"
    using f(2) pow2_mono [of "?f + 1" "?e + 1"] by simp
  also have "\<dots> = pow2 53 * ?q" by (simp add: pow2_add [symmetric] add.commute)
  finally have "\<bar>x\<bar> / ?q \<le> of_int (2 ^ 53)"
    using pow2_nat [of 53] by (simp add: pos_divide_le_eq less_imp_le)
  then have "round_half_even (\<bar>x\<bar> / ?q) \<le> 2 ^ 53"
    by (rule round_half_even_mono_le)
  then have "(of_int (round_half_even (\<bar>x\<bar> / ?q)) :: rat) \<le> of_int (2 ^ 53)"
    by (simp only: of_int_le_iff)
  then have "of_int (round_half_even (\<bar>x\<bar> / ?q)) * ?q \<le> pow2 53 * ?q"
    using pow2_nat [of 53] by (simp add: mult_right_mono less_imp_le)
  also have "\<dots> = pow2 (?e + 1)" by (simp add: pow2_add [symmetric] add.commute)
  also have "\<dots> \<le> pow2 1023" using e by (rule pow2_mono)
  also have "\<dots> < pow2 1024" by (rule pow2_strict_mono) simp
  finally show ?thesis
    using False by (simp add: round64_def Let_def not_le [symmetric] del: not_le)
qed

lemma round64_0: "round64 0 = Finite 0"
  by (simp add: round64_def)

lemma round64_1: "round64 1 = Finite 1"
  by (rule round64_exact [where e = 0 and m = "2 ^ 52"]) (simp_all add: pow2_def)

lemma round64_minus_1: "round64 (- 1) = Finite (- 1)"
  by (rule round64_exact [where e = 0 and m = "2 ^ 52"]) (simp_all add: pow2_def)

lemma int_truediv_finite:
  assumes "b \<noteq> 0" "\<bar>of_int a / of_int b\<bar> < pow2 1023"
  shows "\<exists>r. int_truediv a b = Inr (Finite r) \<and> round64 (of_int a / of_int b) = Finite r"
proof -
  from round64_finite [OF assms(2)] obtain r where "round64 (of_int a / of_int b) = Finite r" ..
  with assms(1) show ?thesis by (simp add: int_truediv_def)
qed


lemma round_half_even_near: "\<bar>of_int (round_half_even y) - y\<bar> \<le> 1 / 2"
proof -
  have "of_int \<lfloor>y\<rfloor> \<le> y" "y < of_int \<lfloor>y\<rfloor> + 1" by linarith+
  then show ?thesis
    unfolding round_half_even_def Let_def by (auto simp: abs_if) linarith+
qed

lemma round64_near:
  assumes "pow2 (- 1022) \<le> \<bar>x\<bar>" "round64 x = Finite r"
  shows "\<bar>r - x\<bar> \<le> \<bar>x\<bar> / 2 ^ 53"
proof -
  have pos: "0 < \<bar>x\<bar>" using assms(1) pow2_pos [of "- 1022"] by linarith
  then have nz: "x \<noteq> 0" by simp
  let ?e = "floor_log2 \<bar>x\<bar>"
  from floor_log2_correct [OF pos] have f: "pow2 ?e \<le> \<bar>x\<bar>" "\<bar>x\<bar> < pow2 (?e + 1)"
    by simp_all
  have "pow2 (- 1022) < pow2 (?e + 1)" using assms(1) f(2) by linarith
  then have "- 1022 \<le> ?e" by (simp add: pow2_less_iff)
  then have m: "max ?e (- 1022) = ?e" by simp
  let ?q = "pow2 (?e - 52)"
  let ?r = "of_int (round_half_even (\<bar>x\<bar> / ?q)) * ?q"
  have q: "0 < ?q" by simp
  have "?r - \<bar>x\<bar> = (of_int (round_half_even (\<bar>x\<bar> / ?q)) - \<bar>x\<bar> / ?q) * ?q"
    using pow2_pos [of "?e - 52"] by (simp add: left_diff_distrib less_imp_neq [THEN not_sym])
  then have "\<bar>?r - \<bar>x\<bar>\<bar> = \<bar>of_int (round_half_even (\<bar>x\<bar> / ?q)) - \<bar>x\<bar> / ?q\<bar> * \<bar>?q\<bar>"
    by (simp only: abs_mult)
  also have "\<dots> = \<bar>of_int (round_half_even (\<bar>x\<bar> / ?q)) - \<bar>x\<bar> / ?q\<bar> * ?q"
    using q by (simp only: abs_of_pos)
  also have "\<dots> \<le> 1 / 2 * ?q"
    by (rule mult_right_mono [OF round_half_even_near less_imp_le [OF q]])
  also have "\<dots> = pow2 ?e / 2 ^ 53"
  proof -
    have "pow2 ?e = pow2 52 * ?q" by (simp add: pow2_add [symmetric])
    then show ?thesis by (simp add: pow2_nat [of 52, simplified])
  qed
  also have "\<dots> \<le> \<bar>x\<bar> / 2 ^ 53" using f(1) by (simp add: divide_right_mono)
  finally have near: "\<bar>?r - \<bar>x\<bar>\<bar> \<le> \<bar>x\<bar> / 2 ^ 53" .
  have "round64 x =
      (if pow2 1024 \<le> ?r then (if x > 0 then PosInf else NegInf)
       else Finite (if x > 0 then ?r else - ?r))"
    using nz by (simp only: round64_def m Let_def if_False)
  with assms(2) have "r = (if x > 0 then ?r else - ?r)"
    by (cases "pow2 1024 \<le> ?r"; cases "x > 0") (simp_all only: if_True if_False pyfloat.inject pyfloat.distinct)
  then have "\<bar>r - x\<bar> = \<bar>?r - \<bar>x\<bar>\<bar>"
    using nz by (cases "x > 0") (simp_all add: abs_minus_commute)
  with near show ?thesis by simp
qed

lemma int_truediv_near:
  assumes "int_truediv a 5 = Inr (Finite r)"
  shows "\<bar>r - of_int a / 5\<bar> \<le> \<bar>of_int a / 5\<bar> / 2 ^ 53"
proof (cases "a = 0")
  case True
  with assms show ?thesis by (simp add: int_truediv_def round64_0)
next
  case False
  then have "1 \<le> \<bar>a\<bar>" by simp
  then have "(of_int 1 :: rat) \<le> of_int \<bar>a\<bar>" by (simp only: of_int_le_iff)
  then have "(1 :: rat) / 5 \<le> \<bar>of_int a / 5\<bar>" by simp
  moreover have "pow2 (- 1022) \<le> 1 / 5" by (simp add: pow2_def)
  ultimately have "pow2 (- 1022) \<le> \<bar>(of_int a :: rat) / 5\<bar>" by linarith
  moreover from assms have "round64 (of_int a / 5) = Finite r"
    by (simp add: int_truediv_def split: pyfloat.splits)
  ultimately show ?thesis by (rule round64_near)
qed

subsection \<open>The limit of the float range\<close>

text \<open>
  A rational is rounded to a finite float exactly when its magnitude is below
  \<open>2\<^sup>1\<^sup>0\<^sup>2\<^sup>4 - 2\<^sup>9\<^sup>7\<^sup>0\<close>, the midpoint between the largest float and \<open>2\<^sup>1\<^sup>0\<^sup>2\<^sup>4\<close>; from there on
  the true division of integers raises \<^verbatim>\<open>OverflowError\<close>.
\<close>

lemma round_half_even_le: "y < of_int N + 1 / 2 \<Longrightarrow> round_half_even y \<le> N"
proof -
  assume a: "y < of_int N + 1 / 2"
  have f: "of_int \<lfloor>y\<rfloor> \<le> y" "y < of_int \<lfloor>y\<rfloor> + 1" by linarith+
  have "\<lfloor>y\<rfloor> \<le> N" using a f(1) by linarith
  then consider "\<lfloor>y\<rfloor> = N" | "\<lfloor>y\<rfloor> + 1 \<le> N" by linarith
  then show ?thesis
  proof cases
    case 1
    with a have "y - of_int \<lfloor>y\<rfloor> < 1 / 2" by simp
    with 1 show ?thesis by (simp add: round_half_even_def Let_def)
  next
    case 2
    then show ?thesis by (simp add: round_half_even_def Let_def)
  qed
qed

lemma round_half_even_ge_odd:
  assumes "of_int N + 1 / 2 \<le> y" "odd N"
  shows "N + 1 \<le> round_half_even y"
proof -
  have f: "of_int \<lfloor>y\<rfloor> \<le> y" "y < of_int \<lfloor>y\<rfloor> + 1" by linarith+
  have "N \<le> \<lfloor>y\<rfloor>" using assms(1) by (simp add: le_floor_iff)
  then consider "\<lfloor>y\<rfloor> = N" | "N + 1 \<le> \<lfloor>y\<rfloor>" by linarith
  then show ?thesis
  proof cases
    case 1
    with assms(1) have "1 / 2 \<le> y - of_int \<lfloor>y\<rfloor>" by simp
    with 1 assms(2) show ?thesis
      by (auto simp add: round_half_even_def Let_def not_less)
  next
    case 2
    then show ?thesis by (auto simp add: round_half_even_def Let_def)
  qed
qed

lemma round64_top_binade:
  assumes "pow2 1023 \<le> \<bar>x\<bar>" "\<bar>x\<bar> < pow2 1024"
  shows "round64 x =
    (if pow2 1024 \<le> of_int (round_half_even (\<bar>x\<bar> / pow2 971)) * pow2 971
     then (if x > 0 then PosInf else NegInf)
     else Finite (if x > 0 then of_int (round_half_even (\<bar>x\<bar> / pow2 971)) * pow2 971
                  else - (of_int (round_half_even (\<bar>x\<bar> / pow2 971)) * pow2 971)))"
proof -
  have nz: "x \<noteq> 0" using assms(1) pow2_pos [of 1023] by (auto simp: not_le [symmetric] simp del: not_le)
  have fl: "floor_log2 \<bar>x\<bar> = 1023"
    using assms by (intro floor_log2_unique) simp_all
  have m: "max (1023 :: int) (- 1022) - 52 = 971" by simp
  show ?thesis
    using nz by (simp only: round64_def fl Let_def if_False m)
qed

lemma round64_below_limit:
  assumes "\<bar>x\<bar> < 2 ^ 1024 - 2 ^ 970"
  shows "\<exists>r. round64 x = Finite r"
proof (cases "\<bar>x\<bar> < pow2 1023")
  case True
  then show ?thesis by (rule round64_finite)
next
  case False
  then have lo: "pow2 1023 \<le> \<bar>x\<bar>" by simp
  have hi: "\<bar>x\<bar> < pow2 1024" using assms by (simp add: pow2_def)
  let ?m = "round_half_even (\<bar>x\<bar> / pow2 971)"
  have "\<bar>x\<bar> / pow2 971 < of_int (2 ^ 53 - 1) + 1 / 2"
    using assms by (simp add: pow2_def pos_divide_less_eq)
  then have "?m \<le> 2 ^ 53 - 1" by (rule round_half_even_le)
  then have "(of_int ?m :: rat) \<le> of_int (2 ^ 53 - 1)" by (simp only: of_int_le_iff)
  then have "of_int ?m * pow2 971 \<le> of_int (2 ^ 53 - 1) * pow2 971"
    by (intro mult_right_mono) (simp_all add: less_imp_le)
  also have "\<dots> < pow2 1024" by (simp add: pow2_def)
  finally have "\<not> pow2 1024 \<le> of_int ?m * pow2 971" by simp
  then show ?thesis
    unfolding round64_top_binade [OF lo hi] by (simp only: if_False) blast
qed

lemma round64_at_limit:
  assumes "2 ^ 1024 - 2 ^ 970 \<le> \<bar>x\<bar>"
  shows "round64 x = (if x > 0 then PosInf else NegInf)"
proof (cases "pow2 1024 \<le> \<bar>x\<bar>")
  case True
  then show ?thesis by (rule round64_overflow)
next
  case False
  then have hi: "\<bar>x\<bar> < pow2 1024" by simp
  have lo: "pow2 1023 \<le> \<bar>x\<bar>"
  proof -
    have "pow2 1023 \<le> 2 ^ 1024 - 2 ^ 970" by (simp add: pow2_def)
    with assms show ?thesis by linarith
  qed
  let ?m = "round_half_even (\<bar>x\<bar> / pow2 971)"
  have "of_int (2 ^ 53 - 1) + 1 / 2 \<le> \<bar>x\<bar> / pow2 971"
    using assms by (simp add: pow2_def pos_le_divide_eq)
  then have "2 ^ 53 - 1 + 1 \<le> ?m" by (rule round_half_even_ge_odd) simp
  then have "(of_int (2 ^ 53) :: rat) \<le> of_int ?m" by (simp only: of_int_le_iff)
  then have A: "of_int (2 ^ 53) * pow2 971 \<le> of_int ?m * pow2 971"
    by (intro mult_right_mono) (simp_all add: less_imp_le)
  have B: "(of_int (2 ^ 53) :: rat) * pow2 971 = pow2 1024" by (simp add: pow2_def)
  from A have "pow2 1024 \<le> of_int ?m * pow2 971" unfolding B .
  then show ?thesis
    unfolding round64_top_binade [OF lo hi] by (simp only: if_True)
qed

lemma int_truediv_5:
  "int_truediv a 5 =
     (if \<bar>a\<bar> < 5 * (2 ^ 1024 - 2 ^ 970) then Inr (round64 (of_int a / 5))
      else Inl OverflowError)"
proof (cases "\<bar>a\<bar> < 5 * (2 ^ 1024 - 2 ^ 970)")
  case True
  then have "(of_int \<bar>a\<bar> :: rat) < of_int (5 * (2 ^ 1024 - 2 ^ 970))" by (simp only: of_int_less_iff)
  then have "\<bar>(of_int a :: rat) / 5\<bar> < 2 ^ 1024 - 2 ^ 970" by simp
  from round64_below_limit [OF this] obtain r where "round64 (of_int a / 5) = Finite r" ..
  with True show ?thesis by (simp add: int_truediv_def)
next
  case False
  then have "5 * (2 ^ 1024 - 2 ^ 970) \<le> \<bar>a\<bar>" by simp
  then have "(of_int (5 * (2 ^ 1024 - 2 ^ 970)) :: rat) \<le> of_int \<bar>a\<bar>" by (simp only: of_int_le_iff)
  then have "2 ^ 1024 - 2 ^ 970 \<le> \<bar>(of_int a :: rat) / 5\<bar>" by simp
  from round64_at_limit [OF this] False show ?thesis
    by (simp add: int_truediv_def)
qed

section \<open>Properties of \<^verbatim>\<open>calculate_working_weeks\<close>\<close>

lemma count_weekdays_scan:
  "count_weekdays current end_dt weekdays =
     weekdays + int (length (filter (\<lambda>d. weekday d < 5) [current..end_dt - 1]))"
proof (induction current end_dt weekdays rule: count_weekdays.induct)
  case (1 current end_dt weekdays)
  show ?case
  proof (cases "current < end_dt")
    case True
    then have u: "[current..end_dt - 1] = current # [current + 1..end_dt - 1]"
      by (simp add: upto_rec1)
    show ?thesis
      using True 1 [OF True] by (subst count_weekdays.simps) (simp add: u)
  next
    case False
    then show ?thesis by (subst count_weekdays.simps) simp
  qed
qed

lemma strptime_2025_03_03: "strptime ''2025-03-03'' = Inr 739313"
  by (simp add: strptime_def parse_month_def parse_day_def is_digit_def digits_def
      nonzero_digits_def digit_value_def int_of_digits_def datetime_def valid_date_def
      ymd2ord_def days_before_year_def days_before_month_def days_in_month_def is_leap_def
      upto_rec1 Let_def)

lemma strptime_2025_03_10: "strptime ''2025-03-10'' = Inr 739320"
  by (simp add: strptime_def parse_month_def parse_day_def is_digit_def digits_def
      nonzero_digits_def digit_value_def int_of_digits_def datetime_def valid_date_def
      ymd2ord_def days_before_year_def days_before_month_def days_in_month_def is_leap_def
      upto_rec1 Let_def)

lemma weekdays_example: "count_weekdays 739313 739320 0 = 5"
  by (simp add: count_weekdays_scan weekday_def upto_rec1)

lemma working_weeks_example:
  "calculate_working_weeks ''2025-03-03'' ''2025-03-10'' 0 = Inr (7, Finite 1, 5, Finite 1)"
  by (simp add: calculate_working_weeks_def strptime_2025_03_03 strptime_2025_03_10
      weekdays_example int_truediv_def round64_1)

lemma working_weeks_reversed:
  "calculate_working_weeks ''2025-03-10'' ''2025-03-03'' 0 = Inr (- 7, Finite (- 1), 0, Finite 0)"
  by (simp add: calculate_working_weeks_def strptime_2025_03_03 strptime_2025_03_10
      count_weekdays_scan int_truediv_def round64_minus_1 round64_0)


lemma strptime_valid:
  "strptime s = Inr a \<Longrightarrow> \<exists>y m d. valid_date y m d \<and> a = ymd2ord y m d"
  by (auto simp: strptime_def datetime_def split: list.splits option.splits if_splits) blast

lemma days_before_month_bounds:
  assumes "1 \<le> m" "m \<le> 12"
  shows "0 \<le> days_before_month y m \<and> days_before_month y m \<le> 335"
proof -
  from assms have "m = 1 \<or> m = 2 \<or> m = 3 \<or> m = 4 \<or> m = 5 \<or> m = 6 \<or> m = 7 \<or> m = 8 \<or>
      m = 9 \<or> m = 10 \<or> m = 11 \<or> m = 12"
    by arith
  then show ?thesis
    by (elim disjE) (simp_all add: days_before_month_def days_in_month_def upto_rec1)
qed

lemma days_before_year_bounds:
  assumes "1 \<le> y" "y \<le> 9999"
  shows "0 \<le> days_before_year y \<and> days_before_year y \<le> 3651793"
proof -
  let ?z = "y - 1"
  have z: "0 \<le> ?z" "?z \<le> 9998" using assms by simp_all
  have "?z div 4 \<le> 9998 div 4" using z(2) by (rule zdiv_mono1) simp
  moreover have "?z div 400 \<le> 9998 div 400" using z(2) by (rule zdiv_mono1) simp
  moreover have "?z div 100 \<le> ?z div 4" using z(1) by (rule zdiv_mono2) simp_all
  moreover have "0 \<le> ?z div 100" "0 \<le> ?z div 400" using z(1) by simp_all
  ultimately show ?thesis
    using z unfolding days_before_year_def Let_def by simp
qed

lemma ymd2ord_bounds:
  assumes "valid_date y m d"
  shows "1 \<le> ymd2ord y m d \<and> ymd2ord y m d \<le> 3652159"
proof -
  from assms have v: "1 \<le> y" "y \<le> 9999" "1 \<le> m" "m \<le> 12" "1 \<le> d" "d \<le> days_in_month y m"
    by (simp_all add: valid_date_def)
  have "days_in_month y m \<le> 31" by (simp add: days_in_month_def)
  with v(5,6) days_before_month_bounds [OF v(3,4), of y] days_before_year_bounds [OF v(1,2)]
  show ?thesis by (simp add: ymd2ord_def)
qed

lemma strptime_bounds: "strptime s = Inr a \<Longrightarrow> 1 \<le> a \<and> a \<le> 3652159"
  using strptime_valid [of s a] ymd2ord_bounds by blast

lemma working_weeks_returns:
  assumes s: "strptime start_s = Inr a" and e: "strptime end_s = Inr b"
    and p: "\<bar>count_weekdays a b 0 - pto\<bar> < 2 ^ 1023"
  shows "\<exists>tw ww. calculate_working_weeks start_s end_s pto =
           Inr (b - a, Finite tw, count_weekdays a b 0 - pto, Finite ww) \<and>
         round64 (of_int (b - a) / 7) = Finite tw \<and>
         round64 (of_int (count_weekdays a b 0 - pto) / 5) = Finite ww"
proof -
  let ?wd = "count_weekdays a b 0 - pto"
  from strptime_bounds [OF s] strptime_bounds [OF e] have "\<bar>b - a\<bar> \<le> 3652159" by linarith
  then have "(of_int \<bar>b - a\<bar> :: rat) \<le> of_int 3652159" by (simp only: of_int_le_iff)
  then have "\<bar>(of_int (b - a) :: rat)\<bar> \<le> 3652159" by simp
  then have "\<bar>(of_int (b - a) :: rat) / of_int 7\<bar> \<le> 3652159"
    by (simp add: abs_divide)
  also have "\<dots> < pow2 1023" by (simp add: pow2_def)
  finally obtain tw where tw: "int_truediv (b - a) 7 = Inr (Finite tw)"
      "round64 (of_int (b - a) / 7) = Finite tw"
    using int_truediv_finite [of 7 "b - a"] by auto
  have "\<bar>(of_int ?wd :: rat)\<bar> < of_int (2 ^ 1023)"
    using p by (simp only: of_int_abs [symmetric] of_int_less_iff)
  then have "\<bar>(of_int ?wd :: rat) / of_int 5\<bar> < pow2 1023"
    by (simp add: pow2_def abs_divide)
  then obtain ww where ww: "int_truediv ?wd 5 = Inr (Finite ww)"
      "round64 (of_int ?wd / 5) = Finite ww"
    using int_truediv_finite [of 5 ?wd] by auto
  show ?thesis
    using tw ww by (simp add: calculate_working_weeks_def s e)
qed



lemma int_truediv_7_7: "int_truediv 7 7 = Inr (Finite 1)"
  by (simp add: int_truediv_def round64_1)

lemma working_weeks_overflows:
  assumes s: "strptime start_s = Inr a" and e: "strptime end_s = Inr b"
    and o: "int_truediv (count_weekdays a b 0 - pto) 5 = Inl OverflowError"
  shows "calculate_working_weeks start_s end_s pto = Inl OverflowError"
proof -
  from working_weeks_returns [OF s e, of "count_weekdays a b 0"]
  obtain tw where "round64 (of_int (b - a) / 7) = Finite tw"
    by auto
  then have "int_truediv (b - a) 7 = Inr (Finite tw)"
    by (simp add: int_truediv_def)
  with o show ?thesis
    by (simp add: calculate_working_weeks_def s e)
qed

lemma int_truediv_huge: "int_truediv (5 - 10 ^ 400) 5 = Inl OverflowError"
proof -
  have "round64 (of_int (5 - 10 ^ 400) / of_int 5) = NegInf"
    by (subst round64_overflow) (simp_all add: pow2_def)
  then show ?thesis
    unfolding int_truediv_def by simp
qed

subsection \<open>The strings that \<^verbatim>\<open>strptime\<close> accepts\<close>



























text \<open>
  The value of \<^verbatim>\<open>calculate_working_weeks\<close> on two dates: the second division is the
  only statement that can raise.
\<close>

lemma working_weeks_value:
  assumes s: "strptime start_s = Inr a" and e: "strptime end_s = Inr b"
  shows "\<exists>tw. round64 (of_int (b - a) / 7) = Finite tw \<and>
           calculate_working_weeks start_s end_s pto =
             (if \<bar>count_weekdays a b 0 - pto\<bar> < 5 * (2 ^ 1024 - 2 ^ 970)
              then Inr (b - a, Finite tw, count_weekdays a b 0 - pto,
                        round64 (of_int (count_weekdays a b 0 - pto) / 5))
              else Inl OverflowError)"
proof -
  from working_weeks_returns [OF s e, of "count_weekdays a b 0"]
  obtain tw where tw: "round64 (of_int (b - a) / 7) = Finite tw"
    by auto
  then have "int_truediv (b - a) 7 = Inr (Finite tw)"
    by (simp add: int_truediv_def)
  then have "calculate_working_weeks start_s end_s pto =
      (if \<bar>count_weekdays a b 0 - pto\<bar> < 5 * (2 ^ 1024 - 2 ^ 970)
       then Inr (b - a, Finite tw, count_weekdays a b 0 - pto,
                 round64 (of_int (count_weekdays a b 0 - pto) / 5))
       else Inl OverflowError)"
    by (simp add: calculate_working_weeks_def s e int_truediv_5 Let_def)
  with tw show ?thesis by blast
qed
subsection \<open>The claims about the working weeks\<close>

text \<open>
  Claim C5. From 2025-03-03 to 2025-03-10 with no PTO day,
  \<^verbatim>\<open>calculate_working_weeks\<close> returns 7 days, 1.0 calendar weeks, 5 working days (the
  weekday count, as no day is subtracted) and 1.0 working weeks; 2025-03-03 is a
  Monday. In general, for the dates \<open>a\<close> and \<open>b\<close> that the two strings denote, the
  function returns \<open>b - a\<close> days, the float of \<open>(b - a) / 7\<close>, and as working days the
  number of the days \<open>d\<close> with \<open>a \<le> d < b\<close>, the end excluded, whose weekday index is
  below 5, that is Monday (0) to Friday (4), minus the PTO days, with the float of their
  fifth; it raises \<^verbatim>\<open>OverflowError\<close> when that fifth is beyond the floats. The scan
  \<^verbatim>\<open>count_weekdays\<close> counts these days.
\<close>

theorem working_weeks_of_one_week:
  "calculate_working_weeks ''2025-03-03'' ''2025-03-10'' 0 = Inr (7, Finite 1, 5, Finite 1) \<and>
   strptime ''2025-03-03'' = Inr 739313 \<and> strptime ''2025-03-10'' = Inr 739320 \<and>
   count_weekdays 739313 739320 0 = 5 \<and> weekday 739313 = 0 \<and>
   count_weekdays current end_dt 0 =
     int (length (filter (\<lambda>d. weekday d < 5) [current..end_dt - 1])) \<and>
   (weekday d < 5 \<longleftrightarrow> weekday d \<in> {0, 1, 2, 3, 4}) \<and>
   0 \<le> weekday d \<and> weekday d \<le> 6 \<and>
   (strptime start_s = Inr a \<and> strptime end_s = Inr b \<longrightarrow>
      (\<exists>tw. round64 (of_int (b - a) / 7) = Finite tw \<and>
         calculate_working_weeks start_s end_s pto =
         (if \<bar>int (length (filter (\<lambda>d. weekday d < 5) [a..b - 1])) - pto\<bar>
               < 5 * (2 ^ 1024 - 2 ^ 970)
          then Inr (b - a, Finite tw,
                    int (length (filter (\<lambda>d. weekday d < 5) [a..b - 1])) - pto,
                    round64 (of_int (int (length (filter (\<lambda>d. weekday d < 5) [a..b - 1])) - pto)
                      / 5))
          else Inl OverflowError)))"
proof -
  have 1: "weekday d < 5 \<longleftrightarrow> weekday d \<in> {0, 1, 2, 3, 4}"
    unfolding weekday_def by auto
  have 2: "0 \<le> weekday d \<and> weekday d \<le> 6"
    unfolding weekday_def by presburger
  have 3: "weekday 739313 = 0" by (simp add: weekday_def)
  have 4: "\<exists>tw. round64 (of_int (b - a) / 7) = Finite tw \<and>
         calculate_working_weeks start_s end_s pto =
         (if \<bar>int (length (filter (\<lambda>d. weekday d < 5) [a..b - 1])) - pto\<bar>
               < 5 * (2 ^ 1024 - 2 ^ 970)
          then Inr (b - a, Finite tw,
                    int (length (filter (\<lambda>d. weekday d < 5) [a..b - 1])) - pto,
                    round64 (of_int (int (length (filter (\<lambda>d. weekday d < 5) [a..b - 1])) - pto)
                      / 5))
          else Inl OverflowError)"
    if "strptime start_s = Inr a" "strptime end_s = Inr b"
    using working_weeks_value [OF that, of pto] count_weekdays_scan [of a b 0]
    by auto
  from 1 2 3 4 working_weeks_example strptime_2025_03_03 strptime_2025_03_10 weekdays_example
    count_weekdays_scan [of current end_dt 0]
  show ?thesis by simp
qed

theorem working_weeks_of_one_week_witness:
  "calculate_working_weeks ''2025-03-03'' ''2025-03-10'' 1 =
     Inr (7, Finite 1, 4, round64 (4 / 5))"
proof -
  have w: "int (length (filter (\<lambda>d. weekday d < 5) [739313..739320 - 1])) = 5"
    using count_weekdays_scan [of 739313 739320 0] weekdays_example by simp
  from working_weeks_of_one_week [of 0 0 0 "''2025-03-03''" 739313 "''2025-03-10''" 739320 1]
    strptime_2025_03_03 strptime_2025_03_10
  have "\<exists>tw. round64 (of_int (739320 - 739313) / 7) = Finite tw \<and>
         calculate_working_weeks ''2025-03-03'' ''2025-03-10'' 1 =
         (if \<bar>int (length (filter (\<lambda>d. weekday d < 5) [739313..739320 - 1])) - 1\<bar>
               < 5 * (2 ^ 1024 - 2 ^ 970)
          then Inr (739320 - 739313, Finite tw,
                    int (length (filter (\<lambda>d. weekday d < 5) [739313..739320 - 1])) - 1,
                    round64 (of_int (int (length (filter (\<lambda>d. weekday d < 5)
                      [739313..739320 - 1])) - 1) / 5))
          else Inl OverflowError)"
    by blast
  then show ?thesis
    unfolding w by (auto simp: round64_1)
qed

text \<open>
  Claim C6, as the code has it. For a valid date range and a number of PTO days for
  which the magnitude of the working days is below \<open>5 \<cdot> (2\<^sup>1\<^sup>0\<^sup>2\<^sup>4 - 2\<^sup>9\<^sup>7\<^sup>0)\<close>,
  \<^verbatim>\<open>calculate_working_weeks\<close> returns as working days the weekday count minus the PTO
  days, not clamped, and as working weeks the float nearest to the working days divided
  by 5: the quotient of the true division, within a relative error of \<open>2\<^sup>-\<^sup>5\<^sup>3\<close>. For
  every other number of PTO days the division raises \<^verbatim>\<open>OverflowError\<close> and nothing is
  returned. The weekday count is the number of the days from the start to the day before
  the end whose weekday index is below 5.
\<close>

theorem working_days_not_clamped:
  assumes "strptime start_s = Inr a" and "strptime end_s = Inr b"
  shows "(\<bar>count_weekdays a b 0 - pto\<bar> < 5 * (2 ^ 1024 - 2 ^ 970) \<longrightarrow>
           (\<exists>tw ww. calculate_working_weeks start_s end_s pto =
              Inr (b - a, Finite tw, count_weekdays a b 0 - pto, Finite ww) \<and>
            round64 (of_int (count_weekdays a b 0 - pto) / 5) = Finite ww \<and>
            \<bar>ww - of_int (count_weekdays a b 0 - pto) / 5\<bar>
              \<le> \<bar>of_int (count_weekdays a b 0 - pto) / 5\<bar> / 2 ^ 53)) \<and>
         (5 * (2 ^ 1024 - 2 ^ 970) \<le> \<bar>count_weekdays a b 0 - pto\<bar> \<longrightarrow>
            calculate_working_weeks start_s end_s pto = Inl OverflowError) \<and>
         count_weekdays a b 0 = int (length (filter (\<lambda>d. weekday d < 5) [a..b - 1]))"
proof (intro conjI impI)
  let ?wd = "count_weekdays a b 0 - pto"
  from working_weeks_value [OF assms, of pto] obtain tw where v:
    "calculate_working_weeks start_s end_s pto =
       (if \<bar>?wd\<bar> < 5 * (2 ^ 1024 - 2 ^ 970)
        then Inr (b - a, Finite tw, ?wd, round64 (of_int ?wd / 5))
        else Inl OverflowError)"
    by blast
  {
    assume small: "\<bar>?wd\<bar> < 5 * (2 ^ 1024 - 2 ^ 970)"
    then have t: "int_truediv ?wd 5 = Inr (round64 (of_int ?wd / 5))"
      by (simp add: int_truediv_5)
    from small have "(of_int \<bar>?wd\<bar> :: rat) < of_int (5 * (2 ^ 1024 - 2 ^ 970))"
      by (simp only: of_int_less_iff)
    then have "\<bar>(of_int ?wd :: rat) / 5\<bar> < 2 ^ 1024 - 2 ^ 970"
      by simp
    from round64_below_limit [OF this]
    obtain ww where ww: "round64 (of_int ?wd / 5) = Finite ww"
      by blast
    with t have "int_truediv ?wd 5 = Inr (Finite ww)" by simp
    from int_truediv_near [OF this] ww v small
    show "\<exists>tw ww. calculate_working_weeks start_s end_s pto =
              Inr (b - a, Finite tw, ?wd, Finite ww) \<and>
            round64 (of_int ?wd / 5) = Finite ww \<and>
            \<bar>ww - of_int ?wd / 5\<bar> \<le> \<bar>of_int ?wd / 5\<bar> / 2 ^ 53"
      by (intro exI [of _ tw] exI [of _ ww]) simp
  }
  {
    assume "5 * (2 ^ 1024 - 2 ^ 970) \<le> \<bar>?wd\<bar>"
    with v show "calculate_working_weeks start_s end_s pto = Inl OverflowError"
      by simp
  }
  show "count_weekdays a b 0 = int (length (filter (\<lambda>d. weekday d < 5) [a..b - 1]))"
    by (simp add: count_weekdays_scan)
qed

theorem working_days_not_clamped_witness:
  "calculate_working_weeks ''2025-03-03'' ''2025-03-10'' 10 = Inr (7, Finite 1, - 5, Finite (- 1))"
proof -
  have "\<bar>count_weekdays 739313 739320 0 - 10\<bar> < 5 * (2 ^ 1024 - 2 ^ 970)"
    by (simp add: weekdays_example)
  with working_days_not_clamped [OF strptime_2025_03_03 strptime_2025_03_10, of 10]
  obtain tw ww where r: "calculate_working_weeks ''2025-03-03'' ''2025-03-10'' 10 =
      Inr (739320 - 739313, Finite tw, count_weekdays 739313 739320 0 - 10, Finite ww)"
    "round64 (of_int (count_weekdays 739313 739320 0 - 10) / 5) = Finite ww"
    by blast
  have "calculate_working_weeks ''2025-03-03'' ''2025-03-10'' 10 =
      Inr (7, Finite 1, - 5, Finite (- 1))"
    by (simp add: calculate_working_weeks_def strptime_2025_03_03 strptime_2025_03_10
        weekdays_example int_truediv_def round64_1 round64_minus_1)
  with r show ?thesis by simp
qed

theorem working_weeks_overflow_counterexample:
  "calculate_working_weeks ''2025-03-03'' ''2025-03-10'' (10 ^ 400) = Inl OverflowError"
proof (rule working_weeks_overflows)
  show "strptime ''2025-03-03'' = Inr 739313" by (rule strptime_2025_03_03)
  show "strptime ''2025-03-10'' = Inr 739320" by (rule strptime_2025_03_10)
  show "int_truediv (count_weekdays 739313 739320 0 - 10 ^ 400) 5 = Inl OverflowError"
    unfolding weekdays_example by (rule int_truediv_huge)
qed



section \<open>Properties of \<^verbatim>\<open>sum_story_points\<close>\<close>

lemma round64_3: "round64 3 = Finite 3"
  by (rule round64_exact [where e = 1 and m = "3 * 2 ^ 51"]) (simp_all add: pow2_def)

lemma round64_5: "round64 5 = Finite 5"
  by (rule round64_exact [where e = 2 and m = "5 * 2 ^ 50"]) (simp_all add: pow2_def)

lemma round64_8: "round64 8 = Finite 8"
  by (rule round64_exact [where e = 3 and m = "2 ^ 52"]) (simp_all add: pow2_def)

lemma round64_21_2: "round64 (21 / 2) = Finite (21 / 2)"
  by (rule round64_exact [where e = 3 and m = "21 * 2 ^ 48"]) (simp_all add: pow2_def)

lemma round64_huge: "round64 (10 ^ 400) = PosInf"
  by (subst round64_overflow) (simp_all add: pow2_def)

lemma float_of_str_5: "float_of_str ''5'' = Inr (Finite 5)"
  by (simp add: float_of_str_def strip_def is_space_def is_digit_def digits_def
      parse_decimal_def split_sign_def parse_exponent_def int_of_digits_def digit_value_def
      pow10_def round64_5)

lemma float_of_str_bad: "float_of_str ''bad'' = Inl ValueError"
  by (simp add: float_of_str_def strip_def is_space_def is_digit_def digits_def
      parse_decimal_def split_sign_def parse_inf_or_nan_def lower_def)

lemma sum_story_points_example:
  "sum_story_points example_issues story_points_field = Inr (Finite (21 / 2), 3)"
  by (simp add: sum_story_points_def example_issues_def float_of_int_def round64_3
      float_of_str_5 float_of_str_bad round64_8 round64_21_2)

lemma float_of_int_error: "float_of_int n = Inl e \<Longrightarrow> e = OverflowError"
  by (auto simp: float_of_int_def split: pyfloat.splits)

lemma float_of_str_error: "float_of_str s = Inl e \<Longrightarrow> e = ValueError"
  by (auto simp: float_of_str_def split: option.splits if_splits prod.splits)

lemma py_float_error:
  "py_float v = Inl e \<Longrightarrow> e = ValueError \<or> e = TypeError \<or> e = OverflowError"
  by (cases v) (auto dest: float_of_int_error float_of_str_error)

lemma sum_story_points_loop_skips:
  "\<not> list_ex (overflows f) iss \<Longrightarrow>
   sum_story_points_loop iss f (t, c) =
     Inr (foldl float_add t (List.map_filter (story_value f) iss),
          c + int (length (List.map_filter (story_value f) iss)))"
proof (induction iss arbitrary: t c)
  case Nil
  show ?case by (simp add: List.map_filter_simps)
next
  case (Cons i iss)
  then have no: "\<not> overflows f i" and rest: "\<not> list_ex (overflows f) iss" by simp_all
  note ih = Cons.IH [OF rest]
  show ?case
  proof (cases "issue_fields i f")
    case None
    then show ?thesis by (simp add: ih story_value_def List.map_filter_simps)
  next
    case (Some v)
    show ?thesis
    proof (cases "v = JNull")
      case True
      with Some show ?thesis by (simp add: ih story_value_def List.map_filter_simps)
    next
      case False
      show ?thesis
      proof (cases "py_float v")
        case (Inl e)
        with no Some False have "e \<noteq> OverflowError" by (auto simp: overflows_def)
        with py_float_error [OF Inl] have "e = ValueError \<or> e = TypeError" by simp
        with Some False Inl show ?thesis
          by (cases v) (auto simp add: ih story_value_def List.map_filter_simps)
      next
        case (Inr x)
        with Some False show ?thesis
          by (cases v) (simp_all add: ih story_value_def List.map_filter_simps)
      qed
    qed
  qed
qed

lemma sum_story_points_skips:
  "\<not> list_ex (overflows f) iss \<Longrightarrow>
   sum_story_points iss f =
     Inr (foldl float_add (Finite 0) (List.map_filter (story_value f) iss),
          int (length (List.map_filter (story_value f) iss)))"
  by (simp add: sum_story_points_def sum_story_points_loop_skips)

lemma sum_story_points_loop_fails:
  "list_ex (overflows f) iss \<Longrightarrow> sum_story_points_loop iss f (t, c) = Inl OverflowError"
proof (induction iss arbitrary: t c)
  case Nil
  then show ?case by simp
next
  case (Cons i iss)
  show ?case
  proof (cases "overflows f i")
    case True
    then obtain v where "issue_fields i f = Some v" "v \<noteq> JNull" "py_float v = Inl OverflowError"
      by (auto simp: overflows_def split: option.splits)
    then show ?thesis by (cases v) simp_all
  next
    case False
    with Cons.prems have rest: "list_ex (overflows f) iss" by simp
    note ih = Cons.IH [OF rest]
    show ?thesis
    proof (cases "issue_fields i f")
      case None
      then show ?thesis by (simp add: ih)
    next
      case (Some v)
      then show ?thesis
        by (cases v; cases "py_float v")
          (auto simp add: ih dest: float_of_int_error float_of_str_error)
    qed
  qed
qed


lemma py_float_huge: "py_float (JInt (10 ^ 400)) = Inl OverflowError"
  unfolding py_float.simps float_of_int_def of_int_power of_int_numeral round64_huge
  by simp

lemma sum_story_points_raises:
  assumes "issue_fields i f = Some v" "v \<noteq> JNull" "py_float v = Inl OverflowError"
  shows "sum_story_points [i] f = Inl OverflowError"
  using assms by (cases v) (simp_all add: sum_story_points_def)

text \<open>
  Claim C7. \<^verbatim>\<open>sum_story_points\<close> skips an issue whose field is absent, \<^verbatim>\<open>null\<close> or
  not convertible (\<open>sum_story_points_skips\<close>), and the values \<^verbatim>\<open>3\<close>, \<^verbatim>\<open>"5"\<close>,
  \<^verbatim>\<open>null\<close>, \<^verbatim>\<open>"bad"\<close>, \<^verbatim>\<open>2.5\<close> give total 10.5 and count 3
  (\<open>sum_story_points_example\<close>). It does fail on a single value, though: on an
  integer too large for a float, \<^verbatim>\<open>float\<close> raises \<^verbatim>\<open>OverflowError\<close>, which the handler
  for \<^verbatim>\<open>ValueError\<close> and \<^verbatim>\<open>TypeError\<close> does not catch.
\<close>

theorem sum_story_points_overflow:
  "sum_story_points [huge_issue] story_points_field = Inl OverflowError"
proof (rule sum_story_points_raises)
  show "issue_fields huge_issue story_points_field = Some (JInt (10 ^ 400))"
    by (simp add: huge_issue_def)
  show "JInt (10 ^ 400) \<noteq> JNull" by simp
  show "py_float (JInt (10 ^ 400)) = Inl OverflowError" by (rule py_float_huge)
qed


end
